theory Spec2Isabelle
  imports Main "HOL-Library.AList" "HOL-Library.Multiset"
begin

section \<open>Values and syntax trees handed over by the parser\<close>

text \<open>
  The program reads JavaScript values out of the syntax tree: the \<open>value\<close> of a literal, the
  \<open>name\<close> of an identifier, or \<open>undefined\<close> when the field is absent. A number is
  represented by the text of its string conversion, which identifies it up to the equality a
  JavaScript \<open>Map\<close> uses for keys (\<open>+0\<close> and \<open>-0\<close> both print as \<open>0\<close>, \<open>NaN\<close> equals itself).
  The value of a regular-expression literal is an object: it carries the identity of that
  object and the text it prints as.
\<close>

datatype jsval =
    VUndefined
  | VNull
  | VBoolean bool
  | VNumber string
  | VString string
  | VRegExp nat string

text \<open>
  The syntax tree of esprima, restricted to what \<open>qxtags.js\<close> reads from a node: its
  kind, the line where it starts (\<open>loc.start.line\<close>), and the fields \<open>name\<close>, \<open>value\<close>,
  \<open>params\<close>, \<open>properties\<close>, \<open>elements\<close>, \<open>key\<close>, \<open>callee\<close> and \<open>arguments\<close>. An array
  literal may have holes (\<open>null\<close> elements). Every other kind of node is \<open>OtherNode\<close> with
  its kind and an opaque payload. The last field of a function node stands for its body.
\<close>

datatype ast =
    Identifier nat string
  | Literal nat jsval
  | FunctionExpression nat "ast list" string
  | ArrowFunctionExpression nat "ast list" string
  | ObjectExpression nat "objmember list"
  | ArrayExpression nat "ast option list"
  | CallExpression nat ast "ast list"
  | OtherNode nat string string
and objmember =
    Property ast ast
  | SpreadElement ast

datatype stmt = ExpressionStatement ast | OtherStatement string

type_synonym program = "stmt list"

fun line :: "ast \<Rightarrow> nat" where
  "line (Identifier l _) = l"
| "line (Literal l _) = l"
| "line (FunctionExpression l _ _) = l"
| "line (ArrowFunctionExpression l _ _) = l"
| "line (ObjectExpression l _) = l"
| "line (ArrayExpression l _) = l"
| "line (CallExpression l _ _) = l"
| "line (OtherNode l _ _) = l"

text \<open>\<open>node.value\<close>: only a literal has the field; elsewhere the read gives \<open>undefined\<close>.\<close>

fun nodeValue :: "ast \<Rightarrow> jsval" where
  "nodeValue (Literal _ v) = v"
| "nodeValue _ = VUndefined"

text \<open>\<open>node.params\<close>: present on the two kinds of function expression only.\<close>

fun params :: "ast \<Rightarrow> ast list option" where
  "params (FunctionExpression _ ps _) = Some ps"
| "params (ArrowFunctionExpression _ ps _) = Some ps"
| "params _ = None"

text \<open>\<open>node.properties\<close>: present on an object literal only.\<close>

fun objProperties :: "ast \<Rightarrow> objmember list option" where
  "objProperties (ObjectExpression _ ps) = Some ps"
| "objProperties _ = None"

text \<open>\<open>t.key.name\<close>, the section name the \<open>switch\<close> of \<open>_parseClass\<close> dispatches on.\<close>

fun keyIdent :: "ast \<Rightarrow> string option" where
  "keyIdent (Identifier _ n) = Some n"
| "keyIdent _ = None"

text \<open>\<open>prop.key.type==='Identifier' ? prop.key.name : prop.key.value\<close>.\<close>

fun keyName :: "ast \<Rightarrow> jsval" where
  "keyName (Identifier _ n) = VString n"
| "keyName k = nodeValue k"

text \<open>
  \<open>esquery.query(t, 'Program>ExpressionStatement>CallExpression')\<close>: the call expressions that
  are the expression of a top-level expression statement, in source order, each as its
  callee and its argument list.
\<close>

fun queryStmt :: "stmt \<Rightarrow> (ast \<times> ast list) list" where
  "queryStmt (ExpressionStatement (CallExpression _ c args)) = [(c, args)]"
| "queryStmt _ = []"

definition query :: "program \<Rightarrow> (ast \<times> ast list) list" where
  "query prog = concat (map queryStmt prog)"

section \<open>The environment and the errors\<close>

text \<open>
  What the program calls but does not define: \<open>path.resolve\<close>, \<open>fs.readFileSync\<close> (the
  code of the failure on the left, the content on the right), \<open>esprima.parseScript\<close>
  (\<open>None\<close> when it throws) and \<open>escodegen.generate\<close>.
\<close>

record env =
  resolve :: "string \<Rightarrow> string"
  readFileSync :: "string \<Rightarrow> string + string"
  parseScript :: "string \<Rightarrow> program option"
  generate :: "ast \<Rightarrow> string"

datatype error =
    AssertionError
  | FsError string
  | SyntaxError
  | TypeError
  | DuplicateClassName

section \<open>Class records\<close>

record Tag =
  t_name :: jsval
  t_t :: ast
  t_signature :: "string option"

record ClassInfo =
  c_srcPath :: string
  c_name :: jsval
  c_bodyT :: ast
  c_type :: "string option"
  c_extend :: "Tag option"
  c_include :: "Tag list"
  c_implement :: "Tag list"
  c_methods :: "Tag list"
  c_properties :: "Tag list"
  c_statics :: "Tag list"
  c_events :: "Tag list"

record SrcInfo =
  clsnames :: "jsval list"

text \<open>
  A JavaScript \<open>Map\<close> keeps its keys in insertion order: it is an association list with
  distinct keys, \<open>get\<close> is \<open>map_of\<close>, \<open>set\<close> is \<open>AList.update\<close> (in place for a key that is
  present, at the end for a new one) and \<open>delete\<close> is \<open>AList.delete\<close>.
\<close>

record SrcMgr =
  srcs :: "(string \<times> SrcInfo) list"
  classes :: "(jsval \<times> ClassInfo) list"

definition newSrcMgr :: SrcMgr where
  "newSrcMgr = \<lparr>srcs = [], classes = []\<rparr>"

section \<open>The extractor: \<open>_parseClass\<close>\<close>

text \<open>\<open>Array.prototype.join\<close> on an array of strings.\<close>

fun join :: "string \<Rightarrow> string list \<Rightarrow> string" where
  "join sep [] = []"
| "join sep [x] = x"
| "join sep (x # y # ys) = x @ sep @ join sep (y # ys)"

text \<open>\<open>'(' + f.params.map(t => escodegen.generate(t)).join(', ') + ')'\<close>; reading
  \<open>params\<close> of a node that has none gives \<open>undefined\<close>, and the call of \<open>map\<close> throws.\<close>

definition paramSignature :: "env \<Rightarrow> ast \<Rightarrow> error + string" where
  "paramSignature e valT =
     (case params valT of
        None \<Rightarrow> Inl TypeError
      | Some ps \<Rightarrow> Inr (''('' @ join '', '' (map (generate e) ps) @ '')''))"

definition refTag :: "env \<Rightarrow> ast \<Rightarrow> Tag" where
  "refTag e valT = \<lparr>t_name = VString (generate e valT), t_t = valT, t_signature = None\<rparr>"

text \<open>The elements of an array literal, each turned into a reference; \<open>escodegen.generate\<close>
  throws on a hole.\<close>

fun refTags :: "env \<Rightarrow> ast option list \<Rightarrow> error + Tag list" where
  "refTags e [] = Inr []"
| "refTags e (None # xs) = Inl TypeError"
| "refTags e (Some x # xs) =
     (case refTags e xs of Inl err \<Rightarrow> Inl err | Inr ts \<Rightarrow> Inr (refTag e x # ts))"

text \<open>The value of \<open>include\<close> or \<open>implement\<close>: an array of references or one reference.\<close>

fun refList :: "env \<Rightarrow> ast \<Rightarrow> error + Tag list" where
  "refList e (ArrayExpression l elems) = refTags e elems"
| "refList e valT = Inr [refTag e valT]"

text \<open>The loops over \<open>valT.properties\<close> of the sections \<open>statics\<close>, \<open>properties\<close> and
  \<open>events\<close>: one entry without signature for each property.\<close>

fun plainTags :: "objmember list \<Rightarrow> error + Tag list" where
  "plainTags [] = Inr []"
| "plainTags (SpreadElement a # ps) = Inl TypeError"
| "plainTags (Property k v # ps) =
     (case plainTags ps of
        Inl err \<Rightarrow> Inl err
      | Inr ts \<Rightarrow> Inr (\<lparr>t_name = keyName k, t_t = v, t_signature = None\<rparr> # ts))"

text \<open>The test \<open>prop.value.type === 'FunctionExpression'\<close>.\<close>

fun isFunctionExpression :: "ast \<Rightarrow> bool" where
  "isFunctionExpression (FunctionExpression _ _ _) = True"
| "isFunctionExpression _ = False"

text \<open>The loop of the section \<open>members\<close>: a function expression is pushed on \<open>methods\<close>,
  any other value on \<open>properties\<close>.\<close>

fun parseMembers :: "env \<Rightarrow> objmember list \<Rightarrow> ClassInfo \<Rightarrow> error + ClassInfo" where
  "parseMembers e [] cls = Inr cls"
| "parseMembers e (SpreadElement a # ps) cls = Inl TypeError"
| "parseMembers e (Property k v # ps) cls =
     (if isFunctionExpression v then
        (case paramSignature e v of
           Inl err \<Rightarrow> Inl err
         | Inr sig \<Rightarrow>
             parseMembers e ps
               (cls\<lparr>c_methods := c_methods cls @
                  [\<lparr>t_name = keyName k, t_t = v, t_signature = Some sig\<rparr>]\<rparr>))
      else
        parseMembers e ps
          (cls\<lparr>c_properties := c_properties cls @
             [\<lparr>t_name = keyName k, t_t = v,
               t_signature = Some (''(='' @ generate e v @ '')'')\<rparr>]\<rparr>))"

text \<open>One round of the loop over the properties of the class body: the \<open>assert\<close> and the
  \<open>switch\<close> on \<open>t.key.name\<close>. A key that is no identifier has no \<open>name\<close> and falls to the
  \<open>default\<close> branch, as every unknown name does; the warning printed there changes
  nothing in the record. The second \<open>case 'include'\<close> of the source is never reached.\<close>

definition parseSection :: "env \<Rightarrow> string option \<Rightarrow> ast \<Rightarrow> ClassInfo \<Rightarrow> error + ClassInfo" where
  "parseSection e name valT cls =
     (if name = Some ''extend'' then Inr (cls\<lparr>c_extend := Some (refTag e valT)\<rparr>)
      else if name = Some ''include'' then
        (case refList e valT of Inl err \<Rightarrow> Inl err | Inr ts \<Rightarrow> Inr (cls\<lparr>c_include := ts\<rparr>))
      else if name = Some ''implement'' then
        (case refList e valT of Inl err \<Rightarrow> Inl err | Inr ts \<Rightarrow> Inr (cls\<lparr>c_implement := ts\<rparr>))
      else if name = Some ''construct'' then
        (case paramSignature e valT of
           Inl err \<Rightarrow> Inl err
         | Inr sig \<Rightarrow>
             Inr (cls\<lparr>c_methods := c_methods cls @
               [\<lparr>t_name = VString ''[constructor]'', t_t = valT, t_signature = Some sig\<rparr>]\<rparr>))
      else if name = Some ''destruct'' then
        (case paramSignature e valT of
           Inl err \<Rightarrow> Inl err
         | Inr sig \<Rightarrow>
             Inr (cls\<lparr>c_methods := c_methods cls @
               [\<lparr>t_name = VString ''[destructor]'', t_t = valT, t_signature = Some sig\<rparr>]\<rparr>))
      else if name = Some ''statics'' then
        (case objProperties valT of
           None \<Rightarrow> Inl TypeError
         | Some ps \<Rightarrow>
             (case plainTags ps of
                Inl err \<Rightarrow> Inl err
              | Inr ts \<Rightarrow> Inr (cls\<lparr>c_statics := c_statics cls @ ts\<rparr>)))
      else if name = Some ''members'' then
        (case objProperties valT of
           None \<Rightarrow> Inl TypeError
         | Some ps \<Rightarrow> parseMembers e ps cls)
      else if name = Some ''properties'' then
        (case objProperties valT of
           None \<Rightarrow> Inl TypeError
         | Some ps \<Rightarrow>
             (case plainTags ps of
                Inl err \<Rightarrow> Inl err
              | Inr ts \<Rightarrow> Inr (cls\<lparr>c_properties := c_properties cls @ ts\<rparr>)))
      else if name = Some ''events'' then
        (case objProperties valT of
           None \<Rightarrow> Inl TypeError
         | Some ps \<Rightarrow>
             (case plainTags ps of
                Inl err \<Rightarrow> Inl err
              | Inr ts \<Rightarrow> Inr (cls\<lparr>c_events := c_events cls @ ts\<rparr>)))
      else if name = Some ''type'' then Inr (cls\<lparr>c_type := Some (generate e valT)\<rparr>)
      else Inr cls)"

fun parseBody :: "env \<Rightarrow> objmember list \<Rightarrow> ClassInfo \<Rightarrow> error + ClassInfo" where
  "parseBody e [] cls = Inr cls"
| "parseBody e (SpreadElement a # ps) cls = Inl AssertionError"
| "parseBody e (Property k v # ps) cls =
     (case parseSection e (keyIdent k) v cls of
        Inl err \<Rightarrow> Inl err
      | Inr cls' \<Rightarrow> parseBody e ps cls')"

text \<open>\<open>_parseClass(srcPath, name, bodyT)\<close>. The body is the second argument of the call: it
  is \<open>undefined\<close> when the call has one argument, and then, as for a body that is no object
  literal, the loop over \<open>bodyT.properties\<close> throws.\<close>

definition parseClass :: "env \<Rightarrow> string \<Rightarrow> jsval \<Rightarrow> ast option \<Rightarrow> error + ClassInfo" where
  "parseClass e srcPath name bodyT =
     (case bodyT of
        None \<Rightarrow> Inl TypeError
      | Some b \<Rightarrow>
          (case objProperties b of
             None \<Rightarrow> Inl TypeError
           | Some ps \<Rightarrow>
               parseBody e ps
                 \<lparr>c_srcPath = srcPath, c_name = name, c_bodyT = b, c_type = None,
                  c_extend = None, c_include = [], c_implement = [], c_methods = [],
                  c_properties = [], c_statics = [], c_events = []\<rparr>))"

section \<open>The registry: \<open>SrcMgr\<close>\<close>

text \<open>\<open>candidate.arguments[0].value\<close> and \<open>candidate.arguments[1]\<close>. Reading \<open>value\<close>
  of a missing first argument throws; a missing second argument is \<open>undefined\<close>.\<close>

fun argName :: "ast list \<Rightarrow> jsval option" where
  "argName [] = None"
| "argName (a0 # as) = Some (nodeValue a0)"

fun argBody :: "ast list \<Rightarrow> ast option" where
  "argBody (a0 # b # as) = Some b"
| "argBody _ = None"

text \<open>The test before the \<open>throw\<close>: \<open>prev != null\<close> and \<open>prev.srcPath !== path\<close>.\<close>

definition conflicts :: "(jsval \<times> ClassInfo) list \<Rightarrow> string \<Rightarrow> jsval \<Rightarrow> bool" where
  "conflicts tbl path name =
     (case map_of tbl name of None \<Rightarrow> False | Some prev \<Rightarrow> c_srcPath prev \<noteq> path)"

text \<open>\<open>_parseClasses(path, t)\<close>, over the calls the query found. The table \<open>tbl\<close> is
  \<open>this.classes\<close>, which the loop reads and never writes.\<close>

fun parseClasses ::
  "env \<Rightarrow> string \<Rightarrow> (jsval \<times> ClassInfo) list \<Rightarrow> (ast \<times> ast list) list \<Rightarrow> error + ClassInfo list"
where
  "parseClasses e path tbl [] = Inr []"
| "parseClasses e path tbl ((callee, args) # rest) =
     (if generate e callee \<noteq> ''qx.Class.define'' then parseClasses e path tbl rest
      else
        (case argName args of
           None \<Rightarrow> Inl TypeError
         | Some name \<Rightarrow>
             (case parseClass e path name (argBody args) of
                Inl err \<Rightarrow> Inl err
              | Inr cls \<Rightarrow>
                  (if conflicts tbl path name then Inl DuplicateClassName
                   else
                     (case parseClasses e path tbl rest of
                        Inl err \<Rightarrow> Inl err
                      | Inr cs \<Rightarrow> Inr (cls # cs))))))"

text \<open>\<open>_removeSrc(path)\<close>: the flag it returns and the registry it leaves.\<close>

definition removeSrc :: "string \<Rightarrow> SrcMgr \<Rightarrow> bool \<times> SrcMgr" where
  "removeSrc path m =
     (case map_of (srcs m) path of
        None \<Rightarrow> (False, m)
      | Some si \<Rightarrow>
          (True, \<lparr>srcs = AList.delete path (srcs m),
                  classes = fold AList.delete (clsnames si) (classes m)\<rparr>))"

text \<open>The two writes that end \<open>_addSrc\<close>, once the classes are collected.\<close>

definition setClass :: "ClassInfo \<Rightarrow> (jsval \<times> ClassInfo) list \<Rightarrow> (jsval \<times> ClassInfo) list" where
  "setClass cls tbl = AList.update (c_name cls) cls tbl"

definition storeClasses :: "string \<Rightarrow> ClassInfo list \<Rightarrow> SrcMgr \<Rightarrow> SrcMgr" where
  "storeClasses path cs m =
     \<lparr>srcs = AList.update path \<lparr>clsnames = map c_name cs\<rparr> (srcs m),
      classes = fold setClass cs (classes m)\<rparr>"

text \<open>\<open>_addSrc(path, src)\<close>: the error thrown, if any, and the registry it leaves.\<close>

definition addSrc :: "env \<Rightarrow> string \<Rightarrow> string \<Rightarrow> SrcMgr \<Rightarrow> error option \<times> SrcMgr" where
  "addSrc e path src m =
     (case parseScript e src of
        None \<Rightarrow> (Some SyntaxError, m)
      | Some t \<Rightarrow>
          (case parseClasses e path (classes m) (query t) of
             Inl err \<Rightarrow> (Some err, m)
           | Inr cs \<Rightarrow> (None, storeClasses path cs m)))"

text \<open>\<open>checkFile(path)\<close> returns \<open>false\<close> for a file that is not there and \<open>undefined\<close>
  at its end, or throws; in each case the registry is left as the second component says.\<close>

datatype retval = RetFalse | RetUndefined

definition checkFile :: "env \<Rightarrow> string \<Rightarrow> SrcMgr \<Rightarrow> (error + retval) \<times> SrcMgr" where
  "checkFile e path m =
     (if path \<noteq> resolve e path then (Inl AssertionError, m)
      else
        (let m1 = snd (removeSrc path m) in
         case readFileSync e path of
           Inl code \<Rightarrow>
             (if code = ''ENOENT'' then (Inr RetFalse, m1) else (Inl (FsError code), m1))
         | Inr src \<Rightarrow>
             (case addSrc e path src m1 of
                (Some err, m2) \<Rightarrow> (Inl err, m2)
              | (None, m2) \<Rightarrow> (Inr RetUndefined, m2))))"

section \<open>The emitter: \<open>genCtags\<close>\<close>

text \<open>A line number printed in decimal, as \<open>+\<close> does with a number and a string.\<close>

fun showNat :: "nat \<Rightarrow> string" where
  "showNat n =
     (if n < 10 then [''0123456789'' ! n]
      else showNat (n div 10) @ [''0123456789'' ! (n mod 10)])"

declare showNat.simps [simp del]

text \<open>The string a value becomes under \<open>+\<close> with a string, and the string it becomes as an
  element of \<open>Array.prototype.join\<close>, where \<open>undefined\<close> and \<open>null\<close> are empty.\<close>

fun toString :: "jsval \<Rightarrow> string" where
  "toString VUndefined = ''undefined''"
| "toString VNull = ''null''"
| "toString (VBoolean b) = (if b then ''true'' else ''false'')"
| "toString (VNumber s) = s"
| "toString (VString s) = s"
| "toString (VRegExp i s) = s"

fun joinElem :: "jsval \<Rightarrow> string" where
  "joinElem VUndefined = []"
| "joinElem VNull = []"
| "joinElem v = toString v"

definition tab :: string where
  "tab = [CHR 0x09]"

definition newline :: string where
  "newline = [CHR 0x0A]"

definition header :: string where
  "header =
     ''!_TAG_FILE_FORMAT'' @ tab @ ''2'' @ newline @
     ''!_TAG_FILE_SORTED'' @ tab @ ''1'' @ tab @ ''/0=unsorted, 1=sorted/'' @ newline @
     ''!_TAG_PROGRAM_NAME'' @ tab @ ''qxtags'' @ newline @
     ''!_TAG_PROGRAM_VERSION'' @ tab @ ''0.1'' @ newline"

text \<open>One line of the tag file: the fields joined by tabs, and a line feed.\<close>

definition tagLine :: "string list \<Rightarrow> string" where
  "tagLine fs = join tab fs @ newline"

definition lineField :: "nat \<Rightarrow> string" where
  "lineField n = showNat n @ [CHR '';'', CHR 0x22]"

definition classFields :: "ClassInfo \<Rightarrow> string list" where
  "classFields cls =
     [joinElem (c_name cls), c_srcPath cls, lineField (line (c_bodyT cls)), ''c'',
      ''line:'' @ showNat (line (c_bodyT cls)), ''type:class'']"

definition extendFields :: "ClassInfo \<Rightarrow> Tag \<Rightarrow> string list" where
  "extendFields cls x =
     [joinElem (t_name x), c_srcPath cls, lineField (line (t_t x)), ''x'',
      ''line:'' @ showNat (line (t_t x)), ''ctype:'' @ toString (c_name cls)]"

record entry =
  e_kind :: string
  e_name :: jsval
  e_lineno :: nat
  e_signature :: "string option"

definition mkEntry :: "string \<Rightarrow> Tag \<Rightarrow> entry" where
  "mkEntry k m =
     \<lparr>e_kind = k, e_name = t_name m, e_lineno = line (t_t m), e_signature = t_signature m\<rparr>"

text \<open>The six loops that fill \<open>members\<close>, in the order of the source.\<close>

definition collectMembers :: "ClassInfo \<Rightarrow> entry list" where
  "collectMembers cls =
     map (mkEntry ''n'') (c_include cls) @ map (mkEntry ''i'') (c_implement cls) @
     map (mkEntry ''m'') (c_methods cls) @ map (mkEntry ''p'') (c_properties cls) @
     map (mkEntry ''s'') (c_statics cls) @ map (mkEntry ''e'') (c_events cls)"

text \<open>\<open>members.sort((a, b) => a.lineno - b.lineno)\<close>: a stable sort on the line number.\<close>

definition sortMembers :: "entry list \<Rightarrow> entry list" where
  "sortMembers ms = sort_key e_lineno ms"

definition startsWith :: "string \<Rightarrow> string \<Rightarrow> bool" where
  "startsWith s p = (take (length p) s = p)"

text \<open>The access level. \<open>startsWith\<close> is a method of strings only: the call throws on a
  name that is a number, \<open>undefined\<close> or any other value.\<close>

definition access :: "jsval \<Rightarrow> error + string" where
  "access name =
     (case name of
        VString s \<Rightarrow>
          Inr (if startsWith s ''__'' then ''protected''
               else if startsWith s ''_'' then ''private''
               else ''public'')
      | _ \<Rightarrow> Inl TypeError)"

definition memberFields :: "ClassInfo \<Rightarrow> entry \<Rightarrow> string \<Rightarrow> string list" where
  "memberFields cls en acc =
     [joinElem (e_name en), c_srcPath cls, lineField (e_lineno en), e_kind en,
      ''line:'' @ showNat (e_lineno en), ''ctype:'' @ toString (c_name cls), ''access:'' @ acc] @
     (case e_signature en of None \<Rightarrow> [] | Some sig \<Rightarrow> [''signature:'' @ sig])"

definition memberLine :: "ClassInfo \<Rightarrow> entry \<Rightarrow> error + string" where
  "memberLine cls en =
     (case access (e_name en) of
        Inl err \<Rightarrow> Inl err
      | Inr acc \<Rightarrow> Inr (tagLine (memberFields cls en acc)))"

fun memberLines :: "ClassInfo \<Rightarrow> entry list \<Rightarrow> error + string list" where
  "memberLines cls [] = Inr []"
| "memberLines cls (en # ens) =
     (case memberLine cls en of
        Inl err \<Rightarrow> Inl err
      | Inr l \<Rightarrow>
          (case memberLines cls ens of Inl err \<Rightarrow> Inl err | Inr ls \<Rightarrow> Inr (l # ls)))"

text \<open>What one round of the loop over the classes pushes on \<open>buf\<close>.\<close>

definition classLines :: "ClassInfo \<Rightarrow> error + string list" where
  "classLines cls =
     (case memberLines cls (sortMembers (collectMembers cls)) of
        Inl err \<Rightarrow> Inl err
      | Inr ls \<Rightarrow>
          Inr (tagLine (classFields cls) #
               (case c_extend cls of None \<Rightarrow> [] | Some x \<Rightarrow> [tagLine (extendFields cls x)]) @
               ls))"

fun allLines :: "ClassInfo list \<Rightarrow> error + string list" where
  "allLines [] = Inr []"
| "allLines (cls # rest) =
     (case classLines cls of
        Inl err \<Rightarrow> Inl err
      | Inr ls \<Rightarrow>
          (case allLines rest of Inl err \<Rightarrow> Inl err | Inr ls' \<Rightarrow> Inr (ls @ ls')))"

text \<open>\<open>genCtags()\<close>: the text, or the error of the first member whose name is no string.\<close>

definition genCtags :: "SrcMgr \<Rightarrow> error + string" where
  "genCtags m =
     (case allLines (map snd (classes m)) of
        Inl err \<Rightarrow> Inl err
      | Inr ls \<Rightarrow> Inr (header @ concat ls))"

section \<open>The directory indexer: \<open>DirMgr._rm\<close>\<close>

text \<open>The set of known directories keeps insertion order, as a JavaScript \<open>Set\<close> does; the
  events handed to \<open>emit\<close> are appended to \<open>emitted\<close>.\<close>

record DirMgr =
  dirs :: "string list"
  srcm :: SrcMgr
  emitted :: "(string \<times> string) list"

text \<open>The loop \<open>for (let srcPath of rmSrcs) this.srcm.checkFile(srcPath)\<close>: the value a call
  returns is dropped, an error it throws ends the loop.\<close>

fun checkFiles :: "env \<Rightarrow> string list \<Rightarrow> SrcMgr \<Rightarrow> error option \<times> SrcMgr" where
  "checkFiles e [] m = (None, m)"
| "checkFiles e (p # ps) m =
     (case checkFile e p m of
        (Inl err, m') \<Rightarrow> (Some err, m')
      | (Inr r, m') \<Rightarrow> checkFiles e ps m')"

definition rm :: "env \<Rightarrow> string \<Rightarrow> DirMgr \<Rightarrow> (error + bool) \<times> DirMgr" where
  "rm e path d =
     (if path \<notin> set (dirs d) then (Inr False, d)
      else
        (let ds = filter (\<lambda>s. \<not> startsWith s path) (dirs d);
             rmSrcs = filter (\<lambda>s. startsWith s path) (map fst (srcs (srcm d)))
         in case checkFiles e rmSrcs (srcm d) of
              (Some err, m') \<Rightarrow> (Inl err, \<lparr>dirs = ds, srcm = m', emitted = emitted d\<rparr>)
            | (None, m') \<Rightarrow>
                (Inr True, \<lparr>dirs = ds, srcm = m', emitted = emitted d @ [(''rm'', path)]\<rparr>)))"

section \<open>The properties\<close>

text \<open>The names of the classes whose record in the class table has the owning path \<open>p\<close>.\<close>

definition ownedNames :: "SrcMgr \<Rightarrow> string \<Rightarrow> jsval list" where
  "ownedNames m p = map fst (filter (\<lambda>(n, c). c_srcPath c = p) (classes m))"

text \<open>The invariant of the registry: both tables have distinct keys, every tracked path
  owns exactly the names its entry lists, and every class is owned by a tracked path.\<close>

definition consistent :: "SrcMgr \<Rightarrow> bool" where
  "consistent m \<longleftrightarrow>
     distinct (map fst (srcs m)) \<and> distinct (map fst (classes m)) \<and>
     (\<forall>(p, si)\<in>set (srcs m). set (ownedNames m p) = set (clsnames si)) \<and>
     (\<forall>(n, c)\<in>set (classes m). c_srcPath c \<in> fst ` set (srcs m))"

text \<open>The registries a program can hold: the one the constructor builds, and the one any
  call of \<open>checkFile\<close> leaves, whatever the file system holds at that moment and whether
  the call returns or throws.\<close>

inductive reachable :: "SrcMgr \<Rightarrow> bool" where
  init: "reachable newSrcMgr"
| step: "reachable m \<Longrightarrow> reachable (snd (checkFile e path m))"

text \<open>The class-definition calls of a list of calls, each as its argument list, and those of
  the file at a path: none when the file cannot be read or parsed.\<close>

definition defineCalls :: "env \<Rightarrow> (ast \<times> ast list) list \<Rightarrow> ast list list" where
  "defineCalls e cands =
     map snd (filter (\<lambda>(callee, args). generate e callee = ''qx.Class.define'') cands)"

definition classDefinitions :: "env \<Rightarrow> string \<Rightarrow> ast list list" where
  "classDefinitions e path =
     (case readFileSync e path of
        Inl code \<Rightarrow> []
      | Inr src \<Rightarrow>
          (case parseScript e src of None \<Rightarrow> [] | Some t \<Rightarrow> defineCalls e (query t)))"

text \<open>The extractor returns a record for the call with these arguments.\<close>

definition extractable :: "env \<Rightarrow> string \<Rightarrow> ast list \<Rightarrow> bool" where
  "extractable e path args =
     (case argName args of
        None \<Rightarrow> False
      | Some n \<Rightarrow> (case parseClass e path n (argBody args) of Inl err \<Rightarrow> False | Inr cls \<Rightarrow> True))"






section \<open>A small file system\<close>

text \<open>
  The files, named by what they hold. \<open>a.js\<close> defines class \<open>X\<close>; \<open>b.js\<close> defines \<open>Y\<close>
  and then \<open>X\<close>; \<open>c.js\<close> defines \<open>X\<close> twice, on lines 1 and 4; \<open>d.js\<close> defines \<open>X\<close> with
  the body \<^verbatim>\<open>{construct: 5}\<close>; \<open>locked.js\<close> cannot be read; \<open>foo.js\<close> is
  \<^verbatim>\<open>
  qx.Class.define("app.Foo", {
    extend: qx.core.Object,
    members: {
      bar: function() {},
      baz: null
    }
  });
  \<close>
  and \<open>mix.js\<close> defines \<open>app.Mix\<close> with a static \<open>S\<close> on line 7 written before its members
  \<open>_y\<close> (a function of \<open>a\<close> and \<open>b\<close>) and \<open>__x\<close> (the number 1), both on line 4, and an
  event \<open>done\<close> on line 2. Any other path does not exist. The generator prints an
  identifier as its name, a literal as its value, an arrow function as its parameters in
  parentheses, \<open>=>\<close> and its payload, and any other node as its payload.
\<close>

definition defineCallee :: "nat \<Rightarrow> ast" where
  "defineCallee l = OtherNode l ''MemberExpression'' ''qx.Class.define''"

definition defineCall :: "nat \<Rightarrow> string \<Rightarrow> objmember list \<Rightarrow> stmt" where
  "defineCall l n body =
     ExpressionStatement
       (CallExpression l (defineCallee l) [Literal l (VString n), ObjectExpression l body])"

definition demoProgA :: program where
  "demoProgA = [defineCall 1 ''X'' []]"

definition demoProgB :: program where
  "demoProgB = [defineCall 1 ''Y'' [], defineCall 3 ''X'' []]"

definition demoProgC :: program where
  "demoProgC = [defineCall 1 ''X'' [], defineCall 4 ''X'' []]"

definition demoProgD :: program where
  "demoProgD =
     [defineCall 1 ''X'' [Property (Identifier 1 ''construct'') (Literal 1 (VNumber ''5''))]]"

definition demoProgFoo :: program where
  "demoProgFoo =
     [defineCall 1 ''app.Foo''
        [Property (Identifier 2 ''extend'') (OtherNode 2 ''MemberExpression'' ''qx.core.Object''),
         Property (Identifier 3 ''members'')
           (ObjectExpression 3
              [Property (Identifier 4 ''bar'') (FunctionExpression 4 [] ''{}''),
               Property (Identifier 5 ''baz'') (Literal 5 VNull)])]]"

definition demoProgMix :: program where
  "demoProgMix =
     [defineCall 1 ''app.Mix''
        [Property (Identifier 7 ''statics'')
           (ObjectExpression 7 [Property (Identifier 7 ''S'') (Literal 7 (VNumber ''1''))]),
         Property (Identifier 4 ''members'')
           (ObjectExpression 4
              [Property (Identifier 4 ''__x'') (Literal 4 (VNumber ''1'')),
               Property (Identifier 4 ''_y'')
                 (FunctionExpression 4 [Identifier 4 ''a'', Identifier 4 ''b''] ''{}'')]),
         Property (Identifier 2 ''events'')
           (ObjectExpression 2 [Property (Identifier 2 ''done'') (Literal 2 (VString ''Event''))])]]"

fun demoGenerate :: "ast \<Rightarrow> string" where
  "demoGenerate (Identifier l n) = n"
| "demoGenerate (Literal l v) = toString v"
| "demoGenerate (OtherNode l k text) = text"
| "demoGenerate (ArrowFunctionExpression l ps body) =
     ''('' @ join '', '' (map demoGenerate ps) @ '') => '' @ body"
| "demoGenerate t = []"

definition demoRead :: "string \<Rightarrow> string + string" where
  "demoRead p =
     (if p = ''/src/a.js'' then Inr ''A''
      else if p = ''/src/b.js'' then Inr ''B''
      else if p = ''/src/c.js'' then Inr ''C''
      else if p = ''/src/d.js'' then Inr ''D''
      else if p = ''/src/foo.js'' then Inr ''Foo''
      else if p = ''/src/mix.js'' then Inr ''Mix''
      else if p = ''/src/locked.js'' then Inl ''EACCES''
      else Inl ''ENOENT'')"

definition demoParse :: "string \<Rightarrow> program option" where
  "demoParse src =
     (if src = ''A'' then Some demoProgA
      else if src = ''B'' then Some demoProgB
      else if src = ''C'' then Some demoProgC
      else if src = ''D'' then Some demoProgD
      else if src = ''Foo'' then Some demoProgFoo
      else if src = ''Mix'' then Some demoProgMix
      else None)"

definition demoEnv :: env where
  "demoEnv =
     \<lparr>resolve = (\<lambda>p. if startsWith p ''/'' then p else ''/cwd/'' @ p),
      readFileSync = demoRead, parseScript = demoParse, generate = demoGenerate\<rparr>"

text \<open>The record of an empty class body, and the registry after \<open>a.js\<close> was checked.\<close>

definition emptyClass :: "string \<Rightarrow> string \<Rightarrow> nat \<Rightarrow> ClassInfo" where
  "emptyClass path n l =
     \<lparr>c_srcPath = path, c_name = VString n, c_bodyT = ObjectExpression l [], c_type = None,
      c_extend = None, c_include = [], c_implement = [], c_methods = [],
      c_properties = [], c_statics = [], c_events = []\<rparr>"

definition demoStateA :: SrcMgr where
  "demoStateA =
     \<lparr>srcs = [(''/src/a.js'', \<lparr>clsnames = [VString ''X'']\<rparr>)],
      classes = [(VString ''X'', emptyClass ''/src/a.js'' ''X'' 1)]\<rparr>"

text \<open>The record the extractor returns for the class of \<open>mix.js\<close>.\<close>

definition demoMixBody :: ast where
  "demoMixBody =
     ObjectExpression 1
       [Property (Identifier 7 ''statics'')
          (ObjectExpression 7 [Property (Identifier 7 ''S'') (Literal 7 (VNumber ''1''))]),
        Property (Identifier 4 ''members'')
          (ObjectExpression 4
             [Property (Identifier 4 ''__x'') (Literal 4 (VNumber ''1'')),
              Property (Identifier 4 ''_y'')
                (FunctionExpression 4 [Identifier 4 ''a'', Identifier 4 ''b''] ''{}'')]),
        Property (Identifier 2 ''events'')
          (ObjectExpression 2 [Property (Identifier 2 ''done'') (Literal 2 (VString ''Event''))])]"

definition demoMixClass :: ClassInfo where
  "demoMixClass =
     \<lparr>c_srcPath = ''/src/mix.js'', c_name = VString ''app.Mix'', c_bodyT = demoMixBody,
      c_type = None, c_extend = None, c_include = [], c_implement = [],
      c_methods =
        [\<lparr>t_name = VString ''_y'',
          t_t = FunctionExpression 4 [Identifier 4 ''a'', Identifier 4 ''b''] ''{}'',
          t_signature = Some ''(a, b)''\<rparr>],
      c_properties =
        [\<lparr>t_name = VString ''__x'', t_t = Literal 4 (VNumber ''1''),
          t_signature = Some ''(=1)''\<rparr>],
      c_statics =
        [\<lparr>t_name = VString ''S'', t_t = Literal 7 (VNumber ''1''), t_signature = None\<rparr>],
      c_events =
        [\<lparr>t_name = VString ''done'', t_t = Literal 2 (VString ''Event''),
          t_signature = None\<rparr>]\<rparr>"


text \<open>A class body whose \<open>members\<close> section holds \<open>f: (a) => a\<close>, and one whose
  constructor is this arrow function.\<close>

definition demoArrow :: ast where
  "demoArrow = ArrowFunctionExpression 2 [Identifier 2 ''a''] ''a''"

definition demoArrowMembers :: ast where
  "demoArrowMembers =
     ObjectExpression 1
       [Property (Identifier 2 ''members'')
          (ObjectExpression 2 [Property (Identifier 2 ''f'') demoArrow])]"

definition demoArrowConstruct :: ast where
  "demoArrowConstruct = ObjectExpression 1 [Property (Identifier 2 ''construct'') demoArrow]"

text \<open>The registry after \<open>mix.js\<close> was checked.\<close>

definition demoStateMix :: SrcMgr where
  "demoStateMix =
     \<lparr>srcs = [(''/src/mix.js'', \<lparr>clsnames = [VString ''app.Mix'']\<rparr>)],
      classes = [(VString ''app.Mix'', demoMixClass)]\<rparr>"

section \<open>The extractor keeps the path and the name\<close>


lemma parseMembers_fixed:
  "parseMembers e ps cls = Inr cls' \<Longrightarrow>
     c_srcPath cls' = c_srcPath cls \<and> c_name cls' = c_name cls \<and> c_bodyT cls' = c_bodyT cls"
proof (induction ps arbitrary: cls)
  case Nil
  then show ?case by simp
next
  case (Cons p ps)
  show ?case
  proof (cases p)
    case (SpreadElement a)
    with Cons.prems show ?thesis by simp
  next
    case (Property k v)
    show ?thesis
    proof (cases "isFunctionExpression v")
      case True
      with Cons.prems Property obtain sig where
        "parseMembers e ps (cls\<lparr>c_methods := c_methods cls @
            [\<lparr>t_name = keyName k, t_t = v, t_signature = Some sig\<rparr>]\<rparr>) = Inr cls'"
        by (auto split: sum.splits)
      from Cons.IH [OF this] show ?thesis by simp
    next
      case False
      with Cons.prems Property have
        "parseMembers e ps (cls\<lparr>c_properties := c_properties cls @
            [\<lparr>t_name = keyName k, t_t = v,
              t_signature = Some (''(='' @ generate e v @ '')'')\<rparr>]\<rparr>) = Inr cls'"
        by simp
      from Cons.IH [OF this] show ?thesis by simp
    qed
  qed
qed

lemma parseSection_fixed:
  "parseSection e nm v cls = Inr cls' \<Longrightarrow>
     c_srcPath cls' = c_srcPath cls \<and> c_name cls' = c_name cls \<and> c_bodyT cls' = c_bodyT cls"
  unfolding parseSection_def
  by (auto split: if_splits sum.splits option.splits dest: parseMembers_fixed)

lemma parseBody_fixed:
  "parseBody e ps cls = Inr cls' \<Longrightarrow>
     c_srcPath cls' = c_srcPath cls \<and> c_name cls' = c_name cls \<and> c_bodyT cls' = c_bodyT cls"
proof (induction ps arbitrary: cls)
  case Nil
  then show ?case by simp
next
  case (Cons p ps)
  show ?case
  proof (cases p)
    case (SpreadElement a)
    with Cons.prems show ?thesis by simp
  next
    case (Property k v)
    with Cons.prems obtain c1 where s: "parseSection e (keyIdent k) v cls = Inr c1"
      and b: "parseBody e ps c1 = Inr cls'"
      by (auto split: sum.splits)
    from Cons.IH [OF b] parseSection_fixed [OF s] show ?thesis by simp
  qed
qed

lemma parseClass_fixed:
  "parseClass e p n b = Inr cls \<Longrightarrow> c_srcPath cls = p \<and> c_name cls = n"
  unfolding parseClass_def
  by (auto split: option.splits dest!: parseBody_fixed)

lemma parseClasses_Inr:
  "parseClasses e p tbl cands = Inr cs \<Longrightarrow>
     \<forall>c\<in>set cs. c_srcPath c = p \<and> \<not> conflicts tbl p (c_name c)"
proof (induction cands arbitrary: cs)
  case Nil
  then show ?case by simp
next
  case (Cons cand cands)
  obtain callee args where cand: "cand = (callee, args)" by (cases cand)
  show ?case
  proof (cases "generate e callee = ''qx.Class.define''")
    case False
    with Cons cand show ?thesis by simp
  next
    case True
    with Cons.prems cand obtain n cls cs' where
      "argName args = Some n" "parseClass e p n (argBody args) = Inr cls"
      "\<not> conflicts tbl p n" "parseClasses e p tbl cands = Inr cs'" "cs = cls # cs'"
      by (auto split: option.splits sum.splits if_splits)
    with Cons.IH [of cs'] parseClass_fixed [of e p n "argBody args" cls]
    show ?thesis by auto
  qed
qed

section \<open>The invariant of the registry\<close>

lemma map_of_fold_delete:
  "map_of (fold AList.delete ns tbl) k = (if k \<in> set ns then None else map_of tbl k)"
  by (induction ns arbitrary: tbl) (auto simp: delete_conv')

lemma distinct_fold_delete:
  "distinct (map fst tbl) \<Longrightarrow> distinct (map fst (fold AList.delete ns tbl))"
  by (induction ns arbitrary: tbl) (auto simp: distinct_delete)

lemma ownedNames_iff:
  "distinct (map fst (classes m)) \<Longrightarrow>
     n \<in> set (ownedNames m p) \<longleftrightarrow> (\<exists>c. map_of (classes m) n = Some c \<and> c_srcPath c = p)"
  unfolding ownedNames_def by force

lemma consistentI:
  assumes "distinct (map fst (srcs m))" and "distinct (map fst (classes m))"
    and "\<And>p si n. map_of (srcs m) p = Some si \<Longrightarrow>
           n \<in> set (clsnames si) \<longleftrightarrow> (\<exists>c. map_of (classes m) n = Some c \<and> c_srcPath c = p)"
    and "\<And>n c. map_of (classes m) n = Some c \<Longrightarrow> map_of (srcs m) (c_srcPath c) \<noteq> None"
  shows "consistent m"
proof -
  have a: "\<forall>(p, si)\<in>set (srcs m). set (ownedNames m p) = set (clsnames si)"
  proof (clarify)
    fix p si assume "(p, si) \<in> set (srcs m)"
    with assms(1) have "map_of (srcs m) p = Some si" by simp
    from assms(3) [OF this] ownedNames_iff [OF assms(2)]
    show "set (ownedNames m p) = set (clsnames si)" by blast
  qed
  have b: "\<forall>(n, c)\<in>set (classes m). c_srcPath c \<in> fst ` set (srcs m)"
  proof (clarify)
    fix n c assume "(n, c) \<in> set (classes m)"
    with assms(2) have "map_of (classes m) n = Some c" by simp
    from assms(4) [OF this] show "c_srcPath c \<in> fst ` set (srcs m)"
      by (simp add: map_of_eq_None_iff)
  qed
  from assms(1,2) a b show ?thesis unfolding consistent_def by simp
qed

lemma consistent_distinct:
  "consistent m \<Longrightarrow> distinct (map fst (srcs m)) \<and> distinct (map fst (classes m))"
  unfolding consistent_def by simp

lemma consistent_owned:
  assumes "consistent m" and "map_of (srcs m) p = Some si"
  shows "n \<in> set (clsnames si) \<longleftrightarrow> (\<exists>c. map_of (classes m) n = Some c \<and> c_srcPath c = p)"
proof -
  from assms(1) have d: "distinct (map fst (srcs m))" "distinct (map fst (classes m))"
    unfolding consistent_def by simp_all
  from assms(2) d(1) have "(p, si) \<in> set (srcs m)" by simp
  with assms(1) have "set (ownedNames m p) = set (clsnames si)"
    unfolding consistent_def by blast
  with ownedNames_iff [OF d(2)] show ?thesis by blast
qed

lemma consistent_tracked:
  assumes "consistent m" and "map_of (classes m) n = Some c"
  shows "map_of (srcs m) (c_srcPath c) \<noteq> None"
proof -
  from assms(1) have d: "distinct (map fst (classes m))" unfolding consistent_def by simp
  with assms(2) have "(n, c) \<in> set (classes m)" by simp
  with assms(1) have "c_srcPath c \<in> fst ` set (srcs m)" unfolding consistent_def by blast
  then show ?thesis by (simp add: map_of_eq_None_iff)
qed

lemma removeSrc_untracked:
  "map_of (srcs m) p = None \<Longrightarrow> removeSrc p m = (False, m)"
  unfolding removeSrc_def by simp

lemma removeSrc_srcs:
  "map_of (srcs (snd (removeSrc p m))) q = (if q = p then None else map_of (srcs m) q)"
  unfolding removeSrc_def by (auto simp: delete_conv' split: option.splits)

lemma removeSrc_classes:
  "map_of (classes (snd (removeSrc p m))) n =
     (case map_of (srcs m) p of
        None \<Rightarrow> map_of (classes m) n
      | Some si \<Rightarrow> if n \<in> set (clsnames si) then None else map_of (classes m) n)"
  unfolding removeSrc_def by (auto simp: map_of_fold_delete split: option.splits)

lemma removeSrc_consistent:
  assumes "consistent m"
  shows "consistent (snd (removeSrc p m))"
    and "\<And>n c. map_of (classes (snd (removeSrc p m))) n = Some c \<Longrightarrow> c_srcPath c \<noteq> p"
proof -
  note d = consistent_distinct [OF assms]
  let ?m = "snd (removeSrc p m)"
  have cls: "c_srcPath c \<noteq> p \<and> map_of (classes m) n = Some c"
    if "map_of (classes ?m) n = Some c" for n c
  proof (cases "map_of (srcs m) p")
    case None
    with that have c: "map_of (classes m) n = Some c" by (simp add: removeSrc_classes)
    from consistent_tracked [OF assms c] None show ?thesis using c by auto
  next
    case (Some si)
    with that have c: "map_of (classes m) n = Some c" and n: "n \<notin> set (clsnames si)"
      by (auto simp: removeSrc_classes split: if_splits)
    from consistent_owned [OF assms Some, of n] n c show ?thesis by auto
  qed
  then show "\<And>n c. map_of (classes ?m) n = Some c \<Longrightarrow> c_srcPath c \<noteq> p" by blast
  show "consistent ?m"
  proof (rule consistentI)
    show "distinct (map fst (srcs ?m))" using d
      unfolding removeSrc_def by (auto simp: distinct_delete split: option.splits)
    show "distinct (map fst (classes ?m))" using d
      unfolding removeSrc_def by (auto simp: distinct_fold_delete split: option.splits)
  next
    fix q si n assume q: "map_of (srcs ?m) q = Some si"
    then have qp: "q \<noteq> p" and q': "map_of (srcs m) q = Some si"
      by (auto simp: removeSrc_srcs split: if_splits)
    show "n \<in> set (clsnames si) \<longleftrightarrow> (\<exists>c. map_of (classes ?m) n = Some c \<and> c_srcPath c = q)"
    proof
      assume "n \<in> set (clsnames si)"
      with consistent_owned [OF assms q'] obtain c where
        c: "map_of (classes m) n = Some c" "c_srcPath c = q" by blast
      have "map_of (classes ?m) n = Some c"
      proof (cases "map_of (srcs m) p")
        case None
        with c show ?thesis by (simp add: removeSrc_classes)
      next
        case (Some sp)
        from consistent_owned [OF assms Some, of n] c qp have "n \<notin> set (clsnames sp)" by auto
        with c Some show ?thesis by (simp add: removeSrc_classes)
      qed
      with c show "\<exists>c. map_of (classes ?m) n = Some c \<and> c_srcPath c = q" by blast
    next
      assume "\<exists>c. map_of (classes ?m) n = Some c \<and> c_srcPath c = q"
      then obtain c where "map_of (classes ?m) n = Some c" "c_srcPath c = q" by blast
      with cls [of n c] consistent_owned [OF assms q', of n]
      show "n \<in> set (clsnames si)" by blast
    qed
  next
    fix n c assume "map_of (classes ?m) n = Some c"
    from cls [OF this] consistent_tracked [OF assms, of n c]
    show "map_of (srcs ?m) (c_srcPath c) \<noteq> None" by (simp add: removeSrc_srcs)
  qed
qed

lemma map_of_fold_setClass_notin:
  "n \<notin> c_name ` set cs \<Longrightarrow> map_of (fold setClass cs tbl) n = map_of tbl n"
  by (induction cs arbitrary: tbl) (auto simp: setClass_def update_conv')

lemma map_of_fold_setClass_last:
  "c_name c \<notin> c_name ` set ys \<Longrightarrow>
     map_of (fold setClass (xs @ c # ys) tbl) (c_name c) = Some c"
  by (simp add: map_of_fold_setClass_notin) (simp add: setClass_def update_conv')

lemma map_of_fold_setClass_in:
  "n \<in> c_name ` set cs \<Longrightarrow>
     \<exists>c\<in>set cs. c_name c = n \<and> map_of (fold setClass cs tbl) n = Some c"
proof (induction cs arbitrary: tbl rule: rev_induct)
  case Nil
  then show ?case by simp
next
  case (snoc c cs)
  show ?case
  proof (cases "c_name c = n")
    case True
    then show ?thesis by (auto simp: setClass_def update_conv')
  next
    case False
    with snoc.prems have "n \<in> c_name ` set cs" by auto
    from snoc.IH [OF this, of tbl] False show ?thesis
      by (auto simp: setClass_def update_conv')
  qed
qed

lemma distinct_fold_setClass:
  "distinct (map fst tbl) \<Longrightarrow> distinct (map fst (fold setClass cs tbl))"
  by (induction cs arbitrary: tbl) (auto simp: setClass_def distinct_update)

lemma keys_fold_setClass:
  "fst ` set (fold setClass cs tbl) = fst ` set tbl \<union> c_name ` set cs"
  by (induction cs arbitrary: tbl) (auto simp: setClass_def dom_update)

lemma update_append_new:
  "k \<notin> fst ` set tbl \<Longrightarrow> AList.update k v (tbl @ ys) = tbl @ AList.update k v ys"
  by (induction tbl) auto

lemma fold_setClass_append_new:
  "c_name ` set cs \<inter> fst ` set tbl = {} \<Longrightarrow>
     fold setClass cs (tbl @ ys) = tbl @ fold setClass cs ys"
  by (induction cs arbitrary: ys) (auto simp: setClass_def update_append_new)

lemma fold_delete_filter:
  "fold AList.delete ns tbl = filter (\<lambda>(k, v). k \<notin> set ns) tbl"
proof (induction ns arbitrary: tbl)
  case Nil
  then show ?case by simp
next
  case (Cons n ns)
  have "filter (\<lambda>(k, v). k \<notin> set ns) (AList.delete n tbl) =
        filter (\<lambda>(k, v). k \<notin> set (n # ns)) tbl"
    unfolding AList.delete_eq by (induction tbl) auto
  with Cons show ?case by simp
qed

lemma fold_delete_fold_setClass:
  assumes "c_name ` set cs \<inter> fst ` set tbl = {}"
  shows "fold AList.delete (map c_name cs) (fold setClass cs tbl) = tbl"
proof -
  have "fold setClass cs tbl = tbl @ fold setClass cs []"
    using fold_setClass_append_new [OF assms, of "[]"] by simp
  moreover have "filter (\<lambda>(k, v). k \<notin> c_name ` set cs) tbl = tbl"
  proof (rule filter_True, clarify)
    fix k v x assume "(c_name x, v) \<in> set tbl" "x \<in> set cs"
    then have "c_name x \<in> c_name ` set cs \<inter> fst ` set tbl" by force
    with assms show False by simp
  qed
  moreover have "filter (\<lambda>(k, v). k \<notin> c_name ` set cs) (fold setClass cs []) = []"
  proof -
    have "k \<in> c_name ` set cs" if "(k, v) \<in> set (fold setClass cs [])" for k v
    proof -
      from that have "k \<in> fst ` set (fold setClass cs [])" by force
      then show ?thesis by (simp add: keys_fold_setClass)
    qed
    then show ?thesis by (auto simp: filter_empty_conv)
  qed
  ultimately show ?thesis by (simp add: fold_delete_filter)
qed

lemma delete_update_new:
  "k \<notin> fst ` set al \<Longrightarrow> AList.delete k (AList.update k v al) = al"
  by (induction al) auto

lemma storeClasses_consistent:
  assumes m: "consistent m" and p: "map_of (srcs m) p = None"
    and free: "\<And>n c. map_of (classes m) n = Some c \<Longrightarrow> c_srcPath c \<noteq> p"
    and cs: "\<forall>c\<in>set cs. c_srcPath c = p \<and> \<not> conflicts (classes m) p (c_name c)"
  shows "consistent (storeClasses p cs m)"
proof (rule consistentI)
  note d = consistent_distinct [OF m]
  let ?m = "storeClasses p cs m"
  have new: "map_of (classes m) n = None" if "n \<in> c_name ` set cs" for n
    using that cs free unfolding conflicts_def by (fastforce split: option.splits)
  have look: "map_of (classes ?m) n = Some c \<longleftrightarrow>
      (if n \<in> c_name ` set cs then map_of (fold setClass cs (classes m)) n = Some c
       else map_of (classes m) n = Some c)" for n c
    by (simp add: storeClasses_def map_of_fold_setClass_notin)
  have inp: "c_srcPath c = p" if "n \<in> c_name ` set cs" "map_of (classes ?m) n = Some c" for n c
  proof -
    from map_of_fold_setClass_in [OF that(1), of "classes m"] that(2) cs
    show ?thesis by (auto simp: storeClasses_def)
  qed
  show "distinct (map fst (srcs ?m))" using d by (simp add: storeClasses_def distinct_update)
  show "distinct (map fst (classes ?m))"
    using d by (simp add: storeClasses_def distinct_fold_setClass)
  show "n \<in> set (clsnames si) \<longleftrightarrow> (\<exists>c. map_of (classes ?m) n = Some c \<and> c_srcPath c = q)"
    if q: "map_of (srcs ?m) q = Some si" for q si n
  proof (cases "q = p")
    case True
    with q have si: "clsnames si = map c_name cs"
      by (auto simp: storeClasses_def update_conv')
    show ?thesis
    proof
      assume "n \<in> set (clsnames si)"
      with si have n: "n \<in> c_name ` set cs" by simp
      from map_of_fold_setClass_in [OF this, of "classes m"] cs True
      show "\<exists>c. map_of (classes ?m) n = Some c \<and> c_srcPath c = q"
        by (auto simp: storeClasses_def)
    next
      assume "\<exists>c. map_of (classes ?m) n = Some c \<and> c_srcPath c = q"
      then obtain c where c: "map_of (classes ?m) n = Some c" "c_srcPath c = p"
        using True by blast
      have "n \<in> c_name ` set cs"
      proof (rule ccontr)
        assume "n \<notin> c_name ` set cs"
        with c look [of n c] free [of n c] show False by simp
      qed
      with si show "n \<in> set (clsnames si)" by simp
    qed
  next
    case False
    with q have q': "map_of (srcs m) q = Some si"
      by (auto simp: storeClasses_def update_conv')
    show ?thesis
    proof (cases "n \<in> c_name ` set cs")
      case True
      from new [OF True] consistent_owned [OF m q', of n] have "n \<notin> set (clsnames si)" by simp
      moreover from inp [OF True] False
      have "\<not> (\<exists>c. map_of (classes ?m) n = Some c \<and> c_srcPath c = q)" by blast
      ultimately show ?thesis by simp
    next
      case n: False
      with look have "map_of (classes ?m) n = map_of (classes m) n"
        by (simp add: storeClasses_def map_of_fold_setClass_notin)
      with consistent_owned [OF m q', of n] show ?thesis by simp
    qed
  qed
  show "map_of (srcs ?m) (c_srcPath c) \<noteq> None" if c: "map_of (classes ?m) n = Some c" for n c
  proof (cases "n \<in> c_name ` set cs")
    case True
    from inp [OF True c] show ?thesis by (simp add: storeClasses_def update_conv')
  next
    case False
    with c look [of n c] have "map_of (classes m) n = Some c" by simp
    from consistent_tracked [OF m this] show ?thesis
      by (simp add: storeClasses_def update_conv')
  qed
qed

lemma addSrc_consistent:
  assumes "consistent m" and "map_of (srcs m) p = None"
    and "\<And>n c. map_of (classes m) n = Some c \<Longrightarrow> c_srcPath c \<noteq> p"
  shows "consistent (snd (addSrc e p src m))"
  unfolding addSrc_def
  using assms storeClasses_consistent [OF assms] parseClasses_Inr [of e p "classes m"]
  by (auto split: option.splits sum.splits)

lemma checkFile_snd:
  "snd (checkFile e p m) =
     (if p \<noteq> resolve e p then m
      else case readFileSync e p of
             Inl code \<Rightarrow> snd (removeSrc p m)
           | Inr src \<Rightarrow> snd (addSrc e p src (snd (removeSrc p m))))"
  unfolding checkFile_def
  by (auto simp: Let_def split: sum.splits prod.splits option.splits)

lemma checkFile_consistent:
  assumes "consistent m"
  shows "consistent (snd (checkFile e p m))"
proof -
  let ?m1 = "snd (removeSrc p m)"
  note r = removeSrc_consistent [OF assms, of p]
  have u: "map_of (srcs ?m1) p = None" by (simp add: removeSrc_srcs)
  have "consistent (snd (addSrc e p src ?m1))" for src
    by (rule addSrc_consistent [OF r(1) u]) (rule r(2))
  with assms r(1) show ?thesis
    by (simp add: checkFile_snd split: sum.splits)
qed

lemma newSrcMgr_consistent: "consistent newSrcMgr"
  unfolding consistent_def newSrcMgr_def by simp

lemma reachable_consistent: "reachable m \<Longrightarrow> consistent m"
  by (induction rule: reachable.induct) (auto intro: newSrcMgr_consistent checkFile_consistent)

section \<open>The registry after a check\<close>

lemmas demo_defs = demoEnv_def demoRead_def demoParse_def demoProgA_def demoProgB_def
  demoProgC_def demoProgD_def demoProgFoo_def demoProgMix_def defineCall_def defineCallee_def startsWith_def

lemmas registry_defs = checkFile_def removeSrc_def addSrc_def storeClasses_def setClass_def
  parseClass_def parseSection_def conflicts_def query_def newSrcMgr_def Let_def

lemma checkFile_a: "checkFile demoEnv ''/src/a.js'' newSrcMgr = (Inr RetUndefined, demoStateA)"
  by (simp add: demo_defs registry_defs demoStateA_def emptyClass_def)

lemma reachable_demoStateA: "reachable demoStateA"
  using reachable.step [OF reachable.init, of demoEnv "''/src/a.js''"]
  by (simp add: checkFile_a)

text \<open>
  C1. After every call of \<open>checkFile\<close> that returns, made on a registry the program can hold,
  every tracked path owns exactly the class names its ownership entry lists, and every
  record of the class table is owned by a tracked path.
\<close>

theorem checkFile_keeps_ownership:
  assumes "reachable m" and "checkFile e path m = (Inr r, m')"
  shows "(\<forall>p si. map_of (srcs m') p = Some si \<longrightarrow>
            {n. \<exists>c. map_of (classes m') n = Some c \<and> c_srcPath c = p} = set (clsnames si)) \<and>
         (\<forall>n c. map_of (classes m') n = Some c \<longrightarrow> c_srcPath c \<in> fst ` set (srcs m'))"
proof -
  from assms(2) have "m' = snd (checkFile e path m)" by simp
  with checkFile_consistent [OF reachable_consistent [OF assms(1)], of e path]
  have c: "consistent m'" by simp
  have "{n. \<exists>c. map_of (classes m') n = Some c \<and> c_srcPath c = p} = set (clsnames si)"
    if "map_of (srcs m') p = Some si" for p si
    using consistent_owned [OF c that] by blast
  moreover have "c_srcPath c \<in> fst ` set (srcs m')" if "map_of (classes m') n = Some c" for n c
    using consistent_tracked [OF c that] by (simp add: map_of_eq_None_iff)
  ultimately show ?thesis by blast
qed

theorem checkFile_keeps_ownership_witness:
  "reachable newSrcMgr \<and>
   checkFile demoEnv ''/src/a.js'' newSrcMgr = (Inr RetUndefined, demoStateA) \<and>
   {n. \<exists>c. map_of (classes demoStateA) n = Some c \<and> c_srcPath c = ''/src/a.js''} =
     {VString ''X''}"
proof -
  have s: "map_of (srcs demoStateA) ''/src/a.js'' = Some \<lparr>clsnames = [VString ''X'']\<rparr>"
    by (simp add: demoStateA_def)
  from checkFile_keeps_ownership [OF reachable.init checkFile_a] s
  have "{n. \<exists>c. map_of (classes demoStateA) n = Some c \<and> c_srcPath c = ''/src/a.js''} =
          {VString ''X''}"
    by auto
  with reachable.init checkFile_a show ?thesis by blast
qed

text \<open>
  C4, as the code has it. When \<open>checkFile\<close> throws the duplicate-class-name error, the
  registry is the one the retraction step left: the records of the file are collected in a
  local list and written to the class table only after the whole loop, so neither the
  conflicting record nor any record extracted before it has been inserted.
\<close>

theorem duplicate_error_inserts_nothing:
  assumes "fst (checkFile e path m) = Inl DuplicateClassName"
  shows "snd (checkFile e path m) = snd (removeSrc path m) \<and>
         map_of (srcs (snd (checkFile e path m))) path = None"
proof -
  from assms have "snd (checkFile e path m) = snd (removeSrc path m)"
    unfolding checkFile_def addSrc_def
    by (auto simp: Let_def split: if_splits sum.splits option.splits)
  then show ?thesis by (simp add: removeSrc_srcs)
qed

theorem duplicate_error_inserts_nothing_witness:
  "fst (checkFile demoEnv ''/src/b.js'' demoStateA) = Inl DuplicateClassName \<and>
   snd (checkFile demoEnv ''/src/b.js'' demoStateA) = demoStateA"
proof -
  have d: "fst (checkFile demoEnv ''/src/b.js'' demoStateA) = Inl DuplicateClassName"
    by (simp add: demo_defs registry_defs demoStateA_def emptyClass_def)
  have "snd (removeSrc ''/src/b.js'' demoStateA) = demoStateA"
    by (simp add: removeSrc_def demoStateA_def)
  with duplicate_error_inserts_nothing [OF d] d show ?thesis by simp
qed

text \<open>
  C4, as the claim has it, fails: \<open>b.js\<close> defines \<open>Y\<close> and then \<open>X\<close>, and \<open>X\<close> is owned by
  \<open>a.js\<close>. Taken alone, the file yields the records of \<open>Y\<close> and \<open>X\<close> in this order; the
  check throws at \<open>X\<close>, and the class table holds no record of \<open>Y\<close>.
\<close>

theorem duplicate_error_keeps_earlier_records_counterexample:
  "parseClasses demoEnv ''/src/b.js'' [] (query demoProgB) =
     Inr [emptyClass ''/src/b.js'' ''Y'' 1, emptyClass ''/src/b.js'' ''X'' 3] \<and>
   fst (checkFile demoEnv ''/src/b.js'' demoStateA) = Inl DuplicateClassName \<and>
   map_of (classes (snd (checkFile demoEnv ''/src/b.js'' demoStateA))) (VString ''Y'') = None"
  by (simp add: demo_defs registry_defs demoStateA_def emptyClass_def)

text \<open>
  C5. On a canonical path whose read fails with \<open>ENOENT\<close>, \<open>checkFile\<close> returns \<open>false\<close>
  and leaves the registry as the retraction step left it: the path is not tracked, the
  names its entry listed are gone from the class table, and on a registry the program can
  hold no record owned by the path remains. A read that fails with any other code is
  thrown on.
\<close>

theorem checkFile_missing_file:
  assumes "resolve e path = path"
  shows "(readFileSync e path = Inl ''ENOENT'' \<longrightarrow>
            checkFile e path m = (Inr RetFalse, snd (removeSrc path m)) \<and>
            map_of (srcs (snd (checkFile e path m))) path = None \<and>
            (\<forall>si n. map_of (srcs m) path = Some si \<longrightarrow> n \<in> set (clsnames si) \<longrightarrow>
               map_of (classes (snd (checkFile e path m))) n = None) \<and>
            (reachable m \<longrightarrow>
               (\<forall>n c. map_of (classes (snd (checkFile e path m))) n = Some c \<longrightarrow>
                  c_srcPath c \<noteq> path))) \<and>
         (\<forall>code. readFileSync e path = Inl code \<longrightarrow> code \<noteq> ''ENOENT'' \<longrightarrow>
            fst (checkFile e path m) = Inl (FsError code))"
proof -
  have thrown: "fst (checkFile e path m) = Inl (FsError code)"
    if "readFileSync e path = Inl code" "code \<noteq> ''ENOENT''" for code
    using that assms unfolding checkFile_def by (simp add: Let_def)
  have "checkFile e path m = (Inr RetFalse, snd (removeSrc path m)) \<and>
        map_of (srcs (snd (checkFile e path m))) path = None \<and>
        (\<forall>si n. map_of (srcs m) path = Some si \<longrightarrow> n \<in> set (clsnames si) \<longrightarrow>
           map_of (classes (snd (checkFile e path m))) n = None) \<and>
        (reachable m \<longrightarrow>
           (\<forall>n c. map_of (classes (snd (checkFile e path m))) n = Some c \<longrightarrow>
              c_srcPath c \<noteq> path))"
    if nf: "readFileSync e path = Inl ''ENOENT''"
  proof -
    from nf assms have eq: "checkFile e path m = (Inr RetFalse, snd (removeSrc path m))"
      unfolding checkFile_def by (simp add: Let_def)
    have gone: "map_of (classes (snd (removeSrc path m))) n = None"
      if "map_of (srcs m) path = Some si" "n \<in> set (clsnames si)" for si n
      using that by (simp add: removeSrc_classes)
    have none: "c_srcPath c \<noteq> path"
      if "reachable m" "map_of (classes (snd (removeSrc path m))) n = Some c" for n c
      using removeSrc_consistent(2) [OF reachable_consistent [OF that(1)] that(2)] .
    from eq gone none show ?thesis by (simp add: removeSrc_srcs)
  qed
  with thrown show ?thesis by blast
qed

theorem checkFile_missing_file_witness:
  "resolve demoEnv ''/src/a.js'' = ''/src/a.js'' \<and>
   reachable demoStateA \<and>
   checkFile (demoEnv\<lparr>readFileSync := (\<lambda>p. Inl ''ENOENT'')\<rparr>) ''/src/a.js'' demoStateA =
     (Inr RetFalse, newSrcMgr) \<and>
   fst (checkFile demoEnv ''/src/locked.js'' demoStateA) = Inl (FsError ''EACCES'')"
proof -
  let ?gone = "demoEnv\<lparr>readFileSync := (\<lambda>p. Inl ''ENOENT'')\<rparr>"
  have r: "resolve ?gone ''/src/a.js'' = ''/src/a.js''"
    and r': "resolve demoEnv ''/src/locked.js'' = ''/src/locked.js''"
    and r'': "resolve demoEnv ''/src/a.js'' = ''/src/a.js''"
    by (simp_all add: demoEnv_def startsWith_def)
  have nf: "readFileSync ?gone ''/src/a.js'' = Inl ''ENOENT''" by simp
  have l: "readFileSync demoEnv ''/src/locked.js'' = Inl ''EACCES''"
    by (simp add: demoEnv_def demoRead_def)
  have s: "snd (removeSrc ''/src/a.js'' demoStateA) = newSrcMgr"
    by (simp add: removeSrc_def demoStateA_def newSrcMgr_def)
  from checkFile_missing_file [OF r, of demoStateA] nf s
  have "checkFile ?gone ''/src/a.js'' demoStateA = (Inr RetFalse, newSrcMgr)" by simp
  moreover from checkFile_missing_file [OF r', of demoStateA] l
  have "fst (checkFile demoEnv ''/src/locked.js'' demoStateA) = Inl (FsError ''EACCES'')" by simp
  ultimately show ?thesis using r'' reachable_demoStateA by simp
qed


section \<open>Checking a file twice\<close>

lemma removeSrc_storeClasses:
  assumes "map_of (srcs m) p = None" and "c_name ` set cs \<inter> fst ` set (classes m) = {}"
  shows "snd (removeSrc p (storeClasses p cs m)) = m"
proof -
  from assms(1) have "p \<notin> fst ` set (srcs m)" by (simp add: map_of_eq_None_iff)
  then have "AList.delete p (AList.update p \<lparr>clsnames = map c_name cs\<rparr> (srcs m)) = srcs m"
    by (rule delete_update_new)
  with fold_delete_fold_setClass [OF assms(2)] show ?thesis
    unfolding removeSrc_def storeClasses_def by (simp add: update_conv')
qed

lemma parseClasses_new_names:
  assumes "parseClasses e p tbl cands = Inr cs"
    and "\<And>n c. map_of tbl n = Some c \<Longrightarrow> c_srcPath c \<noteq> p"
  shows "c_name ` set cs \<inter> fst ` set tbl = {}"
proof -
  have "c_name c \<notin> fst ` set tbl" if "c \<in> set cs" for c
  proof -
    from parseClasses_Inr [OF assms(1)] that have "\<not> conflicts tbl p (c_name c)" by blast
    with assms(2) have "map_of tbl (c_name c) = None"
      unfolding conflicts_def by (auto split: option.splits)
    then show ?thesis by (simp add: map_of_eq_None_iff)
  qed
  then show ?thesis by blast
qed

lemma checkFile_twice:
  assumes "consistent m"
  shows "checkFile e p (snd (checkFile e p m)) = checkFile e p m"
proof (cases "p = resolve e p")
  case False
  then show ?thesis unfolding checkFile_def by simp
next
  case True
  let ?m1 = "snd (removeSrc p m)"
  have u: "map_of (srcs ?m1) p = None" by (simp add: removeSrc_srcs)
  then have again: "snd (removeSrc p ?m1) = ?m1" by (simp add: removeSrc_untracked)
  note r = removeSrc_consistent [OF assms, of p]
  show ?thesis
  proof (cases "readFileSync e p")
    case (Inl code)
    with True again show ?thesis unfolding checkFile_def by (simp add: Let_def)
  next
    case (Inr src)
    show ?thesis
    proof (cases "fst (addSrc e p src ?m1)")
      case (Some err)
      then have "addSrc e p src ?m1 = (Some err, ?m1)"
        unfolding addSrc_def by (auto split: option.splits sum.splits)
      with True Inr again show ?thesis unfolding checkFile_def by (simp add: Let_def)
    next
      case None
      then obtain t cs where t: "parseScript e src = Some t"
        and cs: "parseClasses e p (classes ?m1) (query t) = Inr cs"
        and a: "addSrc e p src ?m1 = (None, storeClasses p cs ?m1)"
        unfolding addSrc_def by (auto split: option.splits sum.splits)
      have "c_name ` set cs \<inter> fst ` set (classes ?m1) = {}"
        by (rule parseClasses_new_names [OF cs]) (rule r(2))
      from removeSrc_storeClasses [OF u this]
      have "snd (removeSrc p (storeClasses p cs ?m1)) = ?m1" .
      with True Inr a show ?thesis unfolding checkFile_def by (simp add: Let_def)
    qed
  qed
qed

text \<open>
  C2. On a registry the program can hold, a second call of \<open>checkFile\<close> on the same path,
  with the file system unchanged, returns what the first call returned and leaves the
  registry the first call left; the emitter gives the same text after both.
\<close>

theorem checkFile_idempotent:
  assumes "reachable m"
  shows "checkFile e path (snd (checkFile e path m)) = checkFile e path m \<and>
         genCtags (snd (checkFile e path (snd (checkFile e path m)))) =
           genCtags (snd (checkFile e path m))"
  using checkFile_twice [OF reachable_consistent [OF assms], of e path] by simp

theorem checkFile_idempotent_witness:
  "reachable newSrcMgr \<and>
   checkFile demoEnv ''/src/a.js'' newSrcMgr = (Inr RetUndefined, demoStateA) \<and>
   checkFile demoEnv ''/src/a.js'' demoStateA = (Inr RetUndefined, demoStateA)"
  using checkFile_idempotent [OF reachable.init, of demoEnv "''/src/a.js''"] reachable.init
  by (simp add: checkFile_a)


section \<open>The duplicate-class-name error\<close>

lemma defineCalls_Cons:
  "defineCalls e ((callee, args) # rest) =
     (if generate e callee = ''qx.Class.define'' then args # defineCalls e rest
      else defineCalls e rest)"
  unfolding defineCalls_def by simp

lemma parseClasses_records:
  "parseClasses e p tbl cands = Inr cs \<Longrightarrow>
     list_all2 (\<lambda>a c. argName a = Some (c_name c) \<and> parseClass e p (c_name c) (argBody a) = Inr c)
       (defineCalls e cands) cs"
proof (induction cands arbitrary: cs)
  case Nil
  then show ?case by (simp add: defineCalls_def)
next
  case (Cons cand cands)
  obtain callee args where cand: "cand = (callee, args)" by (cases cand)
  show ?case
  proof (cases "generate e callee = ''qx.Class.define''")
    case False
    with Cons cand show ?thesis by (simp add: defineCalls_Cons)
  next
    case True
    with Cons.prems cand obtain n cls cs' where
      *: "argName args = Some n" "parseClass e p n (argBody args) = Inr cls"
      "parseClasses e p tbl cands = Inr cs'" "cs = cls # cs'"
      by (auto split: option.splits sum.splits if_splits)
    from parseClass_fixed [OF *(2)] have "c_name cls = n" by simp
    with * Cons.IH [OF *(3)] True cand show ?thesis by (simp add: defineCalls_Cons)
  qed
qed

lemma parseClasses_outcome:
  assumes "\<forall>a\<in>set (defineCalls e cands). extractable e p a"
  shows "if \<exists>a\<in>set (defineCalls e cands). \<exists>n. argName a = Some n \<and> conflicts tbl p n
         then parseClasses e p tbl cands = Inl DuplicateClassName
         else \<exists>cs. parseClasses e p tbl cands = Inr cs"
  using assms
proof (induction cands)
  case Nil
  then show ?case by (simp add: defineCalls_def)
next
  case (Cons cand cands)
  obtain callee args where cand: "cand = (callee, args)" by (cases cand)
  show ?case
  proof (cases "generate e callee = ''qx.Class.define''")
    case False
    with Cons cand show ?thesis by (simp add: defineCalls_Cons)
  next
    case True
    with Cons.prems cand have ex: "extractable e p args"
      and rest: "\<forall>a\<in>set (defineCalls e cands). extractable e p a"
      by (simp_all add: defineCalls_Cons)
    from ex obtain n cls where n: "argName args = Some n"
      and cls: "parseClass e p n (argBody args) = Inr cls"
      unfolding extractable_def by (auto split: option.splits sum.splits)
    show ?thesis
    proof (cases "conflicts tbl p n")
      case c: True
      with True n cls cand show ?thesis by (auto simp: defineCalls_Cons)
    next
      case c: False
      from Cons.IH [OF rest] c True n cls cand show ?thesis
        by (auto simp: defineCalls_Cons split: if_splits)
    qed
  qed
qed

lemma conflicts_retracted:
  assumes "consistent m"
  shows "conflicts (classes (snd (removeSrc p m))) p n \<longleftrightarrow>
         (\<exists>prev. map_of (classes m) n = Some prev \<and> c_srcPath prev \<noteq> p)"
proof (cases "map_of (srcs m) p")
  case None
  then show ?thesis
    unfolding conflicts_def by (auto simp: removeSrc_classes split: option.splits)
next
  case (Some si)
  show ?thesis
  proof (cases "n \<in> set (clsnames si)")
    case True
    with consistent_owned [OF assms Some, of n] Some show ?thesis
      unfolding conflicts_def by (auto simp: removeSrc_classes)
  next
    case False
    with Some show ?thesis
      unfolding conflicts_def by (auto simp: removeSrc_classes split: option.splits)
  qed
qed

lemma paramSignature_error: "paramSignature e v = Inl err \<Longrightarrow> err = TypeError"
  unfolding paramSignature_def by (auto split: option.splits)

lemma refTags_error: "refTags e xs = Inl err \<Longrightarrow> err = TypeError"
  by (induction e xs rule: refTags.induct) (auto split: sum.splits)

lemma refList_error: "refList e v = Inl err \<Longrightarrow> err = TypeError"
  by (cases v) (auto dest: refTags_error)

lemma plainTags_error: "plainTags ps = Inl err \<Longrightarrow> err = TypeError"
  by (induction ps rule: plainTags.induct) (auto split: sum.splits)

lemma parseMembers_error: "parseMembers e ps cls = Inl err \<Longrightarrow> err = TypeError"
  by (induction e ps cls rule: parseMembers.induct)
    (auto split: sum.splits if_splits dest: paramSignature_error)

lemma parseSection_error: "parseSection e nm v cls = Inl err \<Longrightarrow> err = TypeError"
  unfolding parseSection_def
  by (auto split: if_splits sum.splits option.splits
      dest: paramSignature_error refList_error plainTags_error parseMembers_error)

lemma parseBody_error:
  "parseBody e ps cls = Inl err \<Longrightarrow> err = TypeError \<or> err = AssertionError"
  by (induction e ps cls rule: parseBody.induct)
    (auto split: sum.splits dest: parseSection_error)

lemma parseClass_error:
  "parseClass e p n b = Inl err \<Longrightarrow> err = TypeError \<or> err = AssertionError"
  unfolding parseClass_def by (auto split: option.splits dest: parseBody_error)

lemma first_accepted_split:
  "(\<exists>pre a post. x # xs = pre @ a # post \<and> (\<forall>b\<in>set pre. P b) \<and> P a \<and> Q a) \<longleftrightarrow>
   P x \<and> (Q x \<or> (\<exists>pre a post. xs = pre @ a # post \<and> (\<forall>b\<in>set pre. P b) \<and> P a \<and> Q a))"
  (is "?L \<longleftrightarrow> ?R")
proof
  assume ?L
  then obtain pre a post where s: "x # xs = pre @ a # post"
    and p: "\<forall>b\<in>set pre. P b" "P a" "Q a"
    by blast
  show ?R
  proof (cases pre)
    case Nil
    with s p show ?thesis by simp
  next
    case (Cons b pre')
    with s have "b = x" "xs = pre' @ a # post" by simp_all
    with p Cons show ?thesis by auto
  qed
next
  assume r: ?R
  then have px: "P x" by simp
  from r consider "Q x" | pre a post where "xs = pre @ a # post" "\<forall>b\<in>set pre. P b" "P a" "Q a"
    by blast
  then show ?L
  proof cases
    case 1
    with px have "x # xs = [] @ x # xs \<and> (\<forall>b\<in>set []. P b) \<and> P x \<and> Q x" by simp
    then show ?thesis by blast
  next
    case 2
    with px have "x # xs = (x # pre) @ a # post \<and> (\<forall>b\<in>set (x # pre). P b) \<and> P a \<and> Q a"
      by simp
    then show ?thesis by blast
  qed
qed

lemma parseClasses_duplicate_exact:
  "parseClasses e p tbl cands = Inl DuplicateClassName \<longleftrightarrow>
     (\<exists>pre a post. defineCalls e cands = pre @ a # post \<and>
        (\<forall>b\<in>set pre. extractable e p b) \<and> extractable e p a \<and>
        (\<exists>n. argName a = Some n \<and> conflicts tbl p n))"
proof (induction cands)
  case Nil
  then show ?case by (simp add: defineCalls_def)
next
  case (Cons cand cands)
  obtain callee args where cand: "cand = (callee, args)" by (cases cand)
  show ?case
  proof (cases "generate e callee = ''qx.Class.define''")
    case False
    with Cons cand show ?thesis by (simp add: defineCalls_Cons)
  next
    case True
    let ?Q = "\<lambda>a. \<exists>n. argName a = Some n \<and> conflicts tbl p n"
    let ?rest = "\<exists>pre a post. defineCalls e cands = pre @ a # post \<and>
        (\<forall>b\<in>set pre. extractable e p b) \<and> extractable e p a \<and> ?Q a"
    have "parseClasses e p tbl (cand # cands) = Inl DuplicateClassName \<longleftrightarrow>
          extractable e p args \<and> (?Q args \<or> ?rest)"
    proof (cases "argName args")
      case None
      with True cand show ?thesis by (simp add: extractable_def)
    next
      case (Some n)
      show ?thesis
      proof (cases "parseClass e p n (argBody args)")
        case (Inl err)
        with parseClass_error [OF Inl] Some True cand show ?thesis
          by (auto simp: extractable_def)
      next
        case (Inr cls)
        with Some have ex: "extractable e p args" by (simp add: extractable_def)
        show ?thesis
        proof (cases "conflicts tbl p n")
          case c: True
          with Inr Some True cand ex show ?thesis by simp
        next
          case c: False
          with Inr Some True cand have
            "parseClasses e p tbl (cand # cands) = Inl DuplicateClassName \<longleftrightarrow>
             parseClasses e p tbl cands = Inl DuplicateClassName"
            by (auto split: sum.splits)
          with Cons.IH c Some ex show ?thesis by simp
        qed
      qed
    qed
    then have key: "parseClasses e p tbl (cand # cands) = Inl DuplicateClassName \<longleftrightarrow>
          extractable e p args \<and> (?Q args \<or> ?rest)" .
    have d: "defineCalls e (cand # cands) = args # defineCalls e cands"
      using True cand by (simp add: defineCalls_Cons)
    show ?thesis
      by (simp only: d key first_accepted_split [where P = "extractable e p" and Q = ?Q])
  qed
qed

lemma checkFile_duplicate_exact:
  assumes "consistent m" and "resolve e path = path"
  shows "fst (checkFile e path m) = Inl DuplicateClassName \<longleftrightarrow>
         (\<exists>pre a post. classDefinitions e path = pre @ a # post \<and>
            (\<forall>b\<in>set pre. extractable e path b) \<and> extractable e path a \<and>
            (\<exists>n prev. argName a = Some n \<and> map_of (classes m) n = Some prev \<and>
               c_srcPath prev \<noteq> path))"
proof (cases "readFileSync e path")
  case (Inl code)
  with assms(2) show ?thesis
    unfolding checkFile_def classDefinitions_def by (simp add: Let_def)
next
  case (Inr src)
  show ?thesis
  proof (cases "parseScript e src")
    case None
    with Inr assms(2) show ?thesis
      unfolding checkFile_def classDefinitions_def addSrc_def by (simp add: Let_def)
  next
    case (Some t)
    let ?tbl = "classes (snd (removeSrc path m))"
    from Some Inr have defs: "classDefinitions e path = defineCalls e (query t)"
      unfolding classDefinitions_def by simp
    have "fst (checkFile e path m) = Inl DuplicateClassName \<longleftrightarrow>
          parseClasses e path ?tbl (query t) = Inl DuplicateClassName"
      using Some Inr assms(2) unfolding checkFile_def addSrc_def
      by (auto simp: Let_def split: sum.splits)
    then show ?thesis
      by (simp add: parseClasses_duplicate_exact defs conflicts_retracted [OF assms(1)])
  qed
qed

text \<open>
  C3, as the claim has it, fails: \<open>d.js\<close> holds one class-definition call, which names the
  class \<open>X\<close> that \<open>a.js\<close> owns, and its body is \<^verbatim>\<open>{construct: 5}\<close>. The extractor throws on
  the body before the name is compared, and the check ends with that error.
\<close>

theorem duplicate_error_iff_counterexample:
  "reachable demoStateA \<and> resolve demoEnv ''/src/d.js'' = ''/src/d.js'' \<and>
   classDefinitions demoEnv ''/src/d.js'' =
     [[Literal 1 (VString ''X''),
       ObjectExpression 1 [Property (Identifier 1 ''construct'') (Literal 1 (VNumber ''5''))]]] \<and>
   argName [Literal 1 (VString ''X''),
       ObjectExpression 1 [Property (Identifier 1 ''construct'') (Literal 1 (VNumber ''5''))]] =
     Some (VString ''X'') \<and>
   map_of (classes demoStateA) (VString ''X'') = Some (emptyClass ''/src/a.js'' ''X'' 1) \<and>
   c_srcPath (emptyClass ''/src/a.js'' ''X'' 1) \<noteq> ''/src/d.js'' \<and>
   fst (checkFile demoEnv ''/src/d.js'' demoStateA) = Inl TypeError"
proof -
  have "classDefinitions demoEnv ''/src/d.js'' =
     [[Literal 1 (VString ''X''),
       ObjectExpression 1 [Property (Identifier 1 ''construct'') (Literal 1 (VNumber ''5''))]]]"
    by (simp add: classDefinitions_def defineCalls_def query_def demo_defs)
  moreover have "fst (checkFile demoEnv ''/src/d.js'' demoStateA) = Inl TypeError"
    by (simp add: demo_defs registry_defs paramSignature_def demoStateA_def emptyClass_def)
  moreover have "resolve demoEnv ''/src/d.js'' = ''/src/d.js''"
    by (simp add: demoEnv_def startsWith_def)
  ultimately show ?thesis
    using reachable_demoStateA by (simp add: demoStateA_def emptyClass_def)
qed

lemma list_all2_left:
  "list_all2 R xs ys \<Longrightarrow> x \<in> set xs \<Longrightarrow> \<exists>y\<in>set ys. R x y"
  by (induction rule: list_all2_induct) auto

lemma list_all2_right:
  "list_all2 R xs ys \<Longrightarrow> y \<in> set ys \<Longrightarrow> \<exists>x\<in>set xs. R x y"
  by (induction rule: list_all2_induct) auto

lemma classDefinitions_member:
  assumes "a \<in> set (classDefinitions e path)"
  shows "\<exists>src t. readFileSync e path = Inr src \<and> parseScript e src = Some t \<and>
           classDefinitions e path = defineCalls e (query t)"
proof (cases "readFileSync e path")
  case (Inl code)
  with assms show ?thesis unfolding classDefinitions_def by simp
next
  case (Inr src)
  with assms show ?thesis unfolding classDefinitions_def by (cases "parseScript e src") simp_all
qed

lemma checkFile_returns_stored:
  assumes "checkFile e path m = (Inr r, m')" and "a \<in> set (classDefinitions e path)"
  obtains t cs where "classDefinitions e path = defineCalls e (query t)"
    and "parseClasses e path (classes (snd (removeSrc path m))) (query t) = Inr cs"
    and "m' = storeClasses path cs (snd (removeSrc path m))"
proof -
  from classDefinitions_member [OF assms(2)] obtain src t where
    src: "readFileSync e path = Inr src" and t: "parseScript e src = Some t"
    and defs: "classDefinitions e path = defineCalls e (query t)"
    by blast
  from assms(1) src t obtain cs where
    "parseClasses e path (classes (snd (removeSrc path m))) (query t) = Inr cs"
    "m' = storeClasses path cs (snd (removeSrc path m))"
    unfolding checkFile_def addSrc_def
    by (auto simp: Let_def split: if_splits sum.splits)
  with defs that show ?thesis by blast
qed

text \<open>Checking \<open>f1\<close> and then another file \<open>f2\<close>, both defining the class \<open>n\<close>, throws the
  duplicate-class-name error on the second check, when the extractor accepts the calls of
  \<open>f2\<close> up to the one that defines \<open>n\<close>.\<close>

corollary second_file_duplicate:
  assumes "reachable m" and "checkFile e1 f1 m = (Inr r, m1)"
    and "a1 \<in> set (classDefinitions e1 f1)" and "argName a1 = Some n"
    and "f2 \<noteq> f1" and "resolve e2 f2 = f2"
    and "classDefinitions e2 f2 = pre @ a2 # post"
    and "\<forall>b\<in>set pre. extractable e2 f2 b" and "extractable e2 f2 a2"
    and "argName a2 = Some n"
  shows "fst (checkFile e2 f2 m1) = Inl DuplicateClassName"
proof -
  from assms(2) have m1: "m1 = snd (checkFile e1 f1 m)" by simp
  with checkFile_consistent [OF reachable_consistent [OF assms(1)], of e1 f1]
  have c1: "consistent m1" by simp
  from checkFile_returns_stored [OF assms(2,3)] obtain t cs where
    defs: "classDefinitions e1 f1 = defineCalls e1 (query t)"
    and cs: "parseClasses e1 f1 (classes (snd (removeSrc f1 m))) (query t) = Inr cs"
    and st: "m1 = storeClasses f1 cs (snd (removeSrc f1 m))"
    by blast
  from list_all2_left [OF parseClasses_records [OF cs], of a1] assms(3,4) defs
  have "n \<in> c_name ` set cs"
    by auto
  from map_of_fold_setClass_in [OF this, of "classes (snd (removeSrc f1 m))"]
    parseClasses_Inr [OF cs] st
  obtain c where "map_of (classes m1) n = Some c" "c_srcPath c = f1"
    by (auto simp: storeClasses_def)
  with assms(5,7-10) have "\<exists>pre a post. classDefinitions e2 f2 = pre @ a # post \<and>
      (\<forall>b\<in>set pre. extractable e2 f2 b) \<and> extractable e2 f2 a \<and>
      (\<exists>n prev. argName a = Some n \<and> map_of (classes m1) n = Some prev \<and>
         c_srcPath prev \<noteq> f2)"
    by blast
  with checkFile_duplicate_exact [OF c1 assms(6)] show ?thesis by simp
qed

text \<open>Checking the same file twice, its content unchanged, never throws: the second call
  returns what the first returned.\<close>

corollary same_file_twice:
  assumes "reachable m" and "checkFile e f m = (Inr r, m1)"
  shows "checkFile e f m1 = (Inr r, m1)"
  using checkFile_twice [OF reachable_consistent [OF assms(1)], of e f] assms(2) by simp

text \<open>
  C3, as the code has it. On a registry the program can hold and a canonical path,
  \<open>checkFile\<close> throws the duplicate-class-name error exactly when the file has a
  class-definition call that names a class the class table holds under another owning
  path, and the extractor accepts this call and every class-definition call before it.
  When the check returns, a second check of the same file returns as well, and a check of
  another file throws the duplicate-class-name error when that file defines a class the
  first file defines, in a call the extractor accepts with every call before it.
\<close>

theorem duplicate_error_exact:
  assumes "reachable m" and "resolve e path = path"
  shows "(fst (checkFile e path m) = Inl DuplicateClassName \<longleftrightarrow>
          (\<exists>pre a post. classDefinitions e path = pre @ a # post \<and>
             (\<forall>b\<in>set pre. extractable e path b) \<and> extractable e path a \<and>
             (\<exists>n prev. argName a = Some n \<and> map_of (classes m) n = Some prev \<and>
                c_srcPath prev \<noteq> path))) \<and>
         (\<forall>r m1. checkFile e path m = (Inr r, m1) \<longrightarrow>
            checkFile e path m1 = (Inr r, m1) \<and>
            (\<forall>e2 f2 n a1 pre a2 post.
               a1 \<in> set (classDefinitions e path) \<and> argName a1 = Some n \<and>
               f2 \<noteq> path \<and> resolve e2 f2 = f2 \<and>
               classDefinitions e2 f2 = pre @ a2 # post \<and>
               (\<forall>b\<in>set pre. extractable e2 f2 b) \<and> extractable e2 f2 a2 \<and>
               argName a2 = Some n \<longrightarrow>
               fst (checkFile e2 f2 m1) = Inl DuplicateClassName))"
proof (intro conjI allI impI)
  show "fst (checkFile e path m) = Inl DuplicateClassName \<longleftrightarrow>
          (\<exists>pre a post. classDefinitions e path = pre @ a # post \<and>
             (\<forall>b\<in>set pre. extractable e path b) \<and> extractable e path a \<and>
             (\<exists>n prev. argName a = Some n \<and> map_of (classes m) n = Some prev \<and>
                c_srcPath prev \<noteq> path))"
    by (rule checkFile_duplicate_exact [OF reachable_consistent [OF assms(1)] assms(2)])
next
  fix r m1 assume "checkFile e path m = (Inr r, m1)"
  then show "checkFile e path m1 = (Inr r, m1)" by (rule same_file_twice [OF assms(1)])
next
  fix r m1 e2 f2 n a1 pre a2 post
  assume c: "checkFile e path m = (Inr r, m1)"
    and h: "a1 \<in> set (classDefinitions e path) \<and> argName a1 = Some n \<and>
               f2 \<noteq> path \<and> resolve e2 f2 = f2 \<and>
               classDefinitions e2 f2 = pre @ a2 # post \<and>
               (\<forall>b\<in>set pre. extractable e2 f2 b) \<and> extractable e2 f2 a2 \<and>
               argName a2 = Some n"
  from h have h1: "a1 \<in> set (classDefinitions e path)" and h2: "argName a1 = Some n"
    and h3: "f2 \<noteq> path" and h4: "resolve e2 f2 = f2"
    and h5: "classDefinitions e2 f2 = pre @ a2 # post"
    and h6: "\<forall>b\<in>set pre. extractable e2 f2 b" and h7: "extractable e2 f2 a2"
    and h8: "argName a2 = Some n"
    by simp_all
  show "fst (checkFile e2 f2 m1) = Inl DuplicateClassName"
    by (rule second_file_duplicate [OF assms(1) c h1 h2 h3 h4 h5 h6 h7 h8])
qed

theorem duplicate_error_exact_witness:
  "reachable demoStateA \<and> resolve demoEnv ''/src/b.js'' = ''/src/b.js'' \<and>
   classDefinitions demoEnv ''/src/b.js'' =
     [[Literal 1 (VString ''Y''), ObjectExpression 1 []]] @
     [Literal 3 (VString ''X''), ObjectExpression 3 []] # [] \<and>
   list_all (extractable demoEnv ''/src/b.js'') [[Literal 1 (VString ''Y''), ObjectExpression 1 []]] \<and>
   extractable demoEnv ''/src/b.js'' [Literal 3 (VString ''X''), ObjectExpression 3 []] \<and>
   map_of (classes demoStateA) (VString ''X'') = Some (emptyClass ''/src/a.js'' ''X'' 1) \<and>
   fst (checkFile demoEnv ''/src/b.js'' demoStateA) = Inl DuplicateClassName"
proof -
  let ?y = "[Literal 1 (VString ''Y''), ObjectExpression 1 []]"
  let ?x = "[Literal 3 (VString ''X''), ObjectExpression 3 []]"
  have r: "resolve demoEnv ''/src/b.js'' = ''/src/b.js''"
    by (simp add: demoEnv_def startsWith_def)
  have defs: "classDefinitions demoEnv ''/src/b.js'' = [?y] @ ?x # []"
    by (simp add: classDefinitions_def defineCalls_def query_def demo_defs)
  have ey: "list_all (extractable demoEnv ''/src/b.js'') [?y]"
    and ex: "extractable demoEnv ''/src/b.js'' ?x"
    by (simp_all add: extractable_def parseClass_def)
  have x: "map_of (classes demoStateA) (VString ''X'') = Some (emptyClass ''/src/a.js'' ''X'' 1)"
    by (simp add: demoStateA_def)
  have "classDefinitions demoEnv ''/src/b.js'' = [?y] @ ?x # [] \<and>
        (\<forall>b\<in>set [?y]. extractable demoEnv ''/src/b.js'' b) \<and>
        extractable demoEnv ''/src/b.js'' ?x \<and>
        (\<exists>n prev. argName ?x = Some n \<and> map_of (classes demoStateA) n = Some prev \<and>
           c_srcPath prev \<noteq> ''/src/b.js'')"
    using defs ey ex x by (simp add: emptyClass_def)
  then have "\<exists>pre a post. classDefinitions demoEnv ''/src/b.js'' = pre @ a # post \<and>
        (\<forall>b\<in>set pre. extractable demoEnv ''/src/b.js'' b) \<and>
        extractable demoEnv ''/src/b.js'' a \<and>
        (\<exists>n prev. argName a = Some n \<and> map_of (classes demoStateA) n = Some prev \<and>
           c_srcPath prev \<noteq> ''/src/b.js'')"
    by blast
  with conjunct1 [OF duplicate_error_exact [OF reachable_demoStateA r]]
  have "fst (checkFile demoEnv ''/src/b.js'' demoStateA) = Inl DuplicateClassName" by simp
  with reachable_demoStateA r defs ey ex x show ?thesis by simp
qed

text \<open>
  C10. Let the class-definition calls of a file be accepted by the extractor and name no
  class that another path owns. When two of them name the same class \<open>n\<close>, \<open>checkFile\<close>
  returns without error, the class table maps \<open>n\<close> to the record of the last such call, and
  the ownership entry of the file lists \<open>n\<close> at least twice.
\<close>

theorem same_file_duplicate_overwrites:
  assumes "reachable m" and "resolve e path = path"
    and "classDefinitions e path = pre @ a1 # mid @ a2 # post"
    and "argName a1 = Some n" and "argName a2 = Some n"
    and "\<forall>a\<in>set post. argName a \<noteq> Some n"
    and "\<forall>a\<in>set (classDefinitions e path). extractable e path a"
    and "\<not> (\<exists>a\<in>set (classDefinitions e path). \<exists>n' prev.
            argName a = Some n' \<and> map_of (classes m) n' = Some prev \<and> c_srcPath prev \<noteq> path)"
  shows "\<exists>m' r2 si. checkFile e path m = (Inr RetUndefined, m') \<and>
           parseClass e path n (argBody a2) = Inr r2 \<and>
           map_of (classes m') n = Some r2 \<and>
           map_of (srcs m') path = Some si \<and> 2 \<le> count_list (clsnames si) n"
proof -
  note c = reachable_consistent [OF assms(1)]
  let ?m1 = "snd (removeSrc path m)"
  let ?R = "\<lambda>a c. argName a = Some (c_name c) \<and> parseClass e path (c_name c) (argBody a) = Inr c"
  from assms(3) have "a1 \<in> set (classDefinitions e path)" by simp
  from classDefinitions_member [OF this] obtain src t where
    src: "readFileSync e path = Inr src" and t: "parseScript e src = Some t"
    and defs: "classDefinitions e path = defineCalls e (query t)"
    by blast
  from assms(7) defs have wf: "\<forall>a\<in>set (defineCalls e (query t)). extractable e path a" by simp
  from assms(8) defs conflicts_retracted [OF c, of path]
  have "\<not> (\<exists>a\<in>set (defineCalls e (query t)). \<exists>n. argName a = Some n \<and>
            conflicts (classes ?m1) path n)"
    by simp
  with parseClasses_outcome [OF wf, of "classes ?m1"] obtain cs where
    cs: "parseClasses e path (classes ?m1) (query t) = Inr cs"
    by (auto split: if_splits)
  with src t assms(2) have res: "checkFile e path m = (Inr RetUndefined, storeClasses path cs ?m1)"
    unfolding checkFile_def addSrc_def by (simp add: Let_def)
  from parseClasses_records [OF cs] defs assms(3)
  have "list_all2 ?R (pre @ a1 # mid @ a2 # post) cs" by simp
  then obtain cpre c1 cmid c2 cpost where
    split: "cs = cpre @ c1 # cmid @ c2 # cpost"
    and r1: "?R a1 c1" and r2: "?R a2 c2" and rp: "list_all2 ?R post cpost"
    by (auto simp: list_all2_append1 list_all2_Cons1)
  from r1 r2 assms(4,5) have n1: "c_name c1 = n" and n2: "c_name c2 = n" by simp_all
  have "c_name c2 \<notin> c_name ` set cpost"
  proof
    assume "c_name c2 \<in> c_name ` set cpost"
    then obtain c' where "c' \<in> set cpost" "c_name c' = n" using n2 by auto
    with list_all2_right [OF rp, of c'] obtain a' where "a' \<in> set post" "argName a' = Some n"
      by auto
    with assms(6) show False by blast
  qed
  from map_of_fold_setClass_last [OF this, of "cpre @ c1 # cmid" "classes ?m1"] split n2
  have look: "map_of (classes (storeClasses path cs ?m1)) n = Some c2"
    by (simp add: storeClasses_def)
  have own: "map_of (srcs (storeClasses path cs ?m1)) path = Some \<lparr>clsnames = map c_name cs\<rparr>"
    by (simp add: storeClasses_def update_conv')
  have "2 \<le> count_list (map c_name cs) n"
    using split n1 n2 by simp
  with res r2 n2 look own show ?thesis by simp
qed

theorem same_file_duplicate_overwrites_witness:
  "reachable newSrcMgr \<and> resolve demoEnv ''/src/c.js'' = ''/src/c.js'' \<and>
   classDefinitions demoEnv ''/src/c.js'' =
     [] @ [Literal 1 (VString ''X''), ObjectExpression 1 []] # [] @
     [Literal 4 (VString ''X''), ObjectExpression 4 []] # [] \<and>
   list_all (extractable demoEnv ''/src/c.js'') (classDefinitions demoEnv ''/src/c.js'') \<and>
   checkFile demoEnv ''/src/c.js'' newSrcMgr =
     (Inr RetUndefined,
      \<lparr>srcs = [(''/src/c.js'', \<lparr>clsnames = [VString ''X'', VString ''X'']\<rparr>)],
       classes = [(VString ''X'', emptyClass ''/src/c.js'' ''X'' 4)]\<rparr>)"
proof -
  let ?a1 = "[Literal 1 (VString ''X''), ObjectExpression 1 []]"
  let ?a2 = "[Literal 4 (VString ''X''), ObjectExpression 4 []]"
  have r: "resolve demoEnv ''/src/c.js'' = ''/src/c.js''"
    by (simp add: demoEnv_def startsWith_def)
  have defs: "classDefinitions demoEnv ''/src/c.js'' = [] @ ?a1 # [] @ ?a2 # []"
    by (simp add: classDefinitions_def defineCalls_def query_def demo_defs)
  have ex: "list_all (extractable demoEnv ''/src/c.js'') (classDefinitions demoEnv ''/src/c.js'')"
    by (simp add: defs extractable_def parseClass_def)
  then have wf: "\<forall>a\<in>set (classDefinitions demoEnv ''/src/c.js''). extractable demoEnv ''/src/c.js'' a"
    by (simp add: list_all_iff)
  have free: "\<not> (\<exists>a\<in>set (classDefinitions demoEnv ''/src/c.js''). \<exists>n' prev.
      argName a = Some n' \<and> map_of (classes newSrcMgr) n' = Some prev \<and>
      c_srcPath prev \<noteq> ''/src/c.js'')"
    by (simp add: newSrcMgr_def)
  from same_file_duplicate_overwrites [OF reachable.init r defs _ _ _ wf free, of "VString ''X''"]
  obtain m' r2 si where "checkFile demoEnv ''/src/c.js'' newSrcMgr = (Inr RetUndefined, m')"
    by auto
  moreover have "snd (checkFile demoEnv ''/src/c.js'' newSrcMgr) =
      \<lparr>srcs = [(''/src/c.js'', \<lparr>clsnames = [VString ''X'', VString ''X'']\<rparr>)],
       classes = [(VString ''X'', emptyClass ''/src/c.js'' ''X'' 4)]\<rparr>"
    by (simp add: demo_defs registry_defs emptyClass_def)
  ultimately show ?thesis using reachable.init r defs ex by simp
qed


section \<open>The members section\<close>

lemma parseMembers_entry:
  "parseMembers e ps cls = Inr cls' \<Longrightarrow>
     set (c_methods cls) \<subseteq> set (c_methods cls') \<and>
     set (c_properties cls) \<subseteq> set (c_properties cls') \<and>
     (\<forall>pk pv. Property pk pv \<in> set ps \<longrightarrow>
        (case pv of
           FunctionExpression lf fps b \<Rightarrow>
             \<lparr>t_name = keyName pk, t_t = pv,
              t_signature = Some (''('' @ join '', '' (map (generate e) fps) @ '')'')\<rparr>
               \<in> set (c_methods cls')
         | _ \<Rightarrow>
             \<lparr>t_name = keyName pk, t_t = pv,
              t_signature = Some (''(='' @ generate e pv @ '')'')\<rparr>
               \<in> set (c_properties cls')))"
proof (induction ps arbitrary: cls)
  case Nil
  then show ?case by simp
next
  case (Cons p ps)
  show ?case
  proof (cases p)
    case (SpreadElement a)
    with Cons.prems show ?thesis by simp
  next
    case (Property k v)
    show ?thesis
    proof (cases "isFunctionExpression v")
      case True
      then obtain lf fps b where v: "v = FunctionExpression lf fps b" by (cases v) simp_all
      let ?tag = "\<lparr>t_name = keyName k, t_t = v,
         t_signature = Some (''('' @ join '', '' (map (generate e) fps) @ '')'')\<rparr>"
      from Cons.prems Property v have
        "parseMembers e ps (cls\<lparr>c_methods := c_methods cls @ [?tag]\<rparr>) = Inr cls'"
        by (simp add: paramSignature_def)
      from Cons.IH [OF this] Property v show ?thesis by auto
    next
      case False
      let ?tag = "\<lparr>t_name = keyName k, t_t = v,
         t_signature = Some (''(='' @ generate e v @ '')'')\<rparr>"
      from Cons.prems Property False have
        "parseMembers e ps (cls\<lparr>c_properties := c_properties cls @ [?tag]\<rparr>) = Inr cls'"
        by simp
      from Cons.IH [OF this] have ih:
        "set (c_methods cls) \<subseteq> set (c_methods cls')"
        "set (c_properties cls) \<subseteq> set (c_properties cls')"
        "?tag \<in> set (c_properties cls')"
        "\<forall>pk pv. Property pk pv \<in> set ps \<longrightarrow>
          (case pv of
             FunctionExpression lf fps b \<Rightarrow>
               \<lparr>t_name = keyName pk, t_t = pv,
                t_signature = Some (''('' @ join '', '' (map (generate e) fps) @ '')'')\<rparr>
                 \<in> set (c_methods cls')
           | _ \<Rightarrow>
               \<lparr>t_name = keyName pk, t_t = pv,
                t_signature = Some (''(='' @ generate e pv @ '')'')\<rparr>
                 \<in> set (c_properties cls'))"
        by auto
      from False have "(case v of
             FunctionExpression lf fps b \<Rightarrow>
               \<lparr>t_name = keyName k, t_t = v,
                t_signature = Some (''('' @ join '', '' (map (generate e) fps) @ '')'')\<rparr>
                 \<in> set (c_methods cls')
           | _ \<Rightarrow> ?tag \<in> set (c_properties cls'))"
        using ih(3) by (cases v) simp_all
      with ih Property show ?thesis by auto
    qed
  qed
qed

lemma parseSection_grows:
  "parseSection e nm v cls = Inr cls' \<Longrightarrow>
     set (c_methods cls) \<subseteq> set (c_methods cls') \<and>
     set (c_properties cls) \<subseteq> set (c_properties cls')"
  unfolding parseSection_def
  by (auto split: if_splits sum.splits option.splits dest: parseMembers_entry)

lemma parseBody_grows:
  "parseBody e ps cls = Inr cls' \<Longrightarrow>
     set (c_methods cls) \<subseteq> set (c_methods cls') \<and>
     set (c_properties cls) \<subseteq> set (c_properties cls')"
proof (induction ps arbitrary: cls)
  case Nil
  then show ?case by simp
next
  case (Cons p ps)
  show ?case
  proof (cases p)
    case (SpreadElement a)
    with Cons.prems show ?thesis by simp
  next
    case (Property k v)
    with Cons.prems obtain c1 where s: "parseSection e (keyIdent k) v cls = Inr c1"
      and b: "parseBody e ps c1 = Inr cls'"
      by (auto split: sum.splits)
    from Cons.IH [OF b] parseSection_grows [OF s] show ?thesis by blast
  qed
qed

lemma parseBody_members:
  assumes "parseBody e body cls = Inr cls'"
    and "Property k (ObjectExpression l props) \<in> set body"
    and "keyIdent k = Some ''members''"
  shows "\<exists>c0 c1. parseMembers e props c0 = Inr c1 \<and>
           set (c_methods c1) \<subseteq> set (c_methods cls') \<and>
           set (c_properties c1) \<subseteq> set (c_properties cls')"
  using assms(1,2)
proof (induction body arbitrary: cls)
  case Nil
  then show ?case by simp
next
  case (Cons p ps)
  show ?case
  proof (cases p)
    case (SpreadElement a)
    with Cons.prems show ?thesis by simp
  next
    case (Property k' v')
    with Cons.prems obtain c1 where s: "parseSection e (keyIdent k') v' cls = Inr c1"
      and b: "parseBody e ps c1 = Inr cls'"
      by (auto split: sum.splits)
    show ?thesis
    proof (cases "p = Property k (ObjectExpression l props)")
      case True
      with Property s assms(3) have "parseMembers e props cls = Inr c1"
        unfolding parseSection_def by auto
      with parseBody_grows [OF b] show ?thesis by blast
    next
      case False
      with Cons.prems(2) have "Property k (ObjectExpression l props) \<in> set ps" by simp
      from Cons.IH [OF b this] show ?thesis .
    qed
  qed
qed

text \<open>
  In the record the extractor returns for a class, every entry of the \<open>members\<close>
  section whose value is a node of kind \<open>FunctionExpression\<close> is a method whose signature is the
  generated texts of its parameters, joined by a comma and a space, in parentheses; every
  other entry is a property whose signature is \<open>(=\<close>, the generated text of the value, and
  \<open>)\<close>.
\<close>

lemma members_section_entries:
  assumes "parseClass e path name (Some (ObjectExpression l0 body)) = Inr cls"
    and "Property k (ObjectExpression l props) \<in> set body"
    and "keyIdent k = Some ''members''"
    and "Property pk pv \<in> set props"
  shows "case pv of
           FunctionExpression lf fps b \<Rightarrow>
             \<lparr>t_name = keyName pk, t_t = pv,
              t_signature = Some (''('' @ join '', '' (map (generate e) fps) @ '')'')\<rparr>
               \<in> set (c_methods cls)
         | _ \<Rightarrow>
             \<lparr>t_name = keyName pk, t_t = pv,
              t_signature = Some (''(='' @ generate e pv @ '')'')\<rparr>
               \<in> set (c_properties cls)"
proof -
  from assms(1) obtain c where "parseBody e body c = Inr cls"
    unfolding parseClass_def by simp
  from parseBody_members [OF this assms(2,3)] obtain c0 c1 where
    m: "parseMembers e props c0 = Inr c1"
    and sub: "set (c_methods c1) \<subseteq> set (c_methods cls)"
      "set (c_properties c1) \<subseteq> set (c_properties cls)"
    by blast
  from parseMembers_entry [OF m] assms(4) have
    "case pv of
       FunctionExpression lf fps b \<Rightarrow>
         \<lparr>t_name = keyName pk, t_t = pv,
          t_signature = Some (''('' @ join '', '' (map (generate e) fps) @ '')'')\<rparr>
           \<in> set (c_methods c1)
     | _ \<Rightarrow>
         \<lparr>t_name = keyName pk, t_t = pv,
          t_signature = Some (''(='' @ generate e pv @ '')'')\<rparr>
           \<in> set (c_properties c1)"
    by blast
  with sub show ?thesis by (cases pv) auto
qed

lemma members_section_entries_mix:
  "parseClass demoEnv ''/src/mix.js'' (VString ''app.Mix'')
     (Some (ObjectExpression 1
        [Property (Identifier 4 ''members'')
           (ObjectExpression 4
              [Property (Identifier 4 ''__x'') (Literal 4 (VNumber ''1'')),
               Property (Identifier 4 ''_y'')
                 (FunctionExpression 4 [Identifier 4 ''a'', Identifier 4 ''b''] ''{}'')])])) =
     Inr ((emptyClass ''/src/mix.js'' ''app.Mix'' 1)
       \<lparr>c_bodyT := ObjectExpression 1
          [Property (Identifier 4 ''members'')
             (ObjectExpression 4
                [Property (Identifier 4 ''__x'') (Literal 4 (VNumber ''1'')),
                 Property (Identifier 4 ''_y'')
                   (FunctionExpression 4 [Identifier 4 ''a'', Identifier 4 ''b''] ''{}'')])],
        c_methods :=
          [\<lparr>t_name = VString ''_y'',
            t_t = FunctionExpression 4 [Identifier 4 ''a'', Identifier 4 ''b''] ''{}'',
            t_signature = Some ''(a, b)''\<rparr>],
        c_properties :=
          [\<lparr>t_name = VString ''__x'', t_t = Literal 4 (VNumber ''1''),
            t_signature = Some ''(=1)''\<rparr>]\<rparr>)"
proof -
  let ?f = "FunctionExpression 4 [Identifier 4 ''a'', Identifier 4 ''b''] ''{}''"
  let ?props = "[Property (Identifier 4 ''__x'') (Literal 4 (VNumber ''1'')),
                 Property (Identifier 4 ''_y'') ?f]"
  let ?body = "[Property (Identifier 4 ''members'') (ObjectExpression 4 ?props)]"
  let ?cls = "(emptyClass ''/src/mix.js'' ''app.Mix'' 1)
       \<lparr>c_bodyT := ObjectExpression 1 ?body,
        c_methods := [\<lparr>t_name = VString ''_y'', t_t = ?f, t_signature = Some ''(a, b)''\<rparr>],
        c_properties :=
          [\<lparr>t_name = VString ''__x'', t_t = Literal 4 (VNumber ''1''),
            t_signature = Some ''(=1)''\<rparr>]\<rparr>"
  have p: "parseClass demoEnv ''/src/mix.js'' (VString ''app.Mix'')
             (Some (ObjectExpression 1 ?body)) = Inr ?cls"
    by (simp add: parseClass_def parseSection_def paramSignature_def emptyClass_def demoEnv_def)
  have "\<lparr>t_name = keyName (Identifier 4 ''_y''), t_t = ?f,
          t_signature = Some (''('' @ join '', ''
            (map (generate demoEnv) [Identifier 4 ''a'', Identifier 4 ''b'']) @ '')'')\<rparr>
          \<in> set (c_methods ?cls)"
    using members_section_entries [OF p, of "Identifier 4 ''members''" 4 ?props
        "Identifier 4 ''_y''" ?f]
    by simp
  with p show ?thesis by simp
qed


text \<open>
  C8. The entry \<open>f: (a) => a\<close> of a \<open>members\<close> section has a function as its value, and the
  extractor records no method for it: it records the property \<open>f\<close> with the signature
  \<open>(=(a) => a)\<close>, because the test on the value asks for the kind \<open>FunctionExpression\<close> and an
  arrow function has the kind \<open>ArrowFunctionExpression\<close>. The arrow function has a parameter
  list, and as the value of \<open>construct\<close> it is recorded as a method with the signature
  \<open>(a)\<close>.
\<close>

theorem arrow_member_recorded_as_property:
  "params demoArrow = Some [Identifier 2 ''a''] \<and>
   parseClass demoEnv ''/src/arrow.js'' (VString ''app.Arrow'') (Some demoArrowMembers) =
     Inr ((emptyClass ''/src/arrow.js'' ''app.Arrow'' 1)
       \<lparr>c_bodyT := demoArrowMembers,
        c_properties :=
          [\<lparr>t_name = VString ''f'', t_t = demoArrow, t_signature = Some ''(=(a) => a)''\<rparr>]\<rparr>) \<and>
   parseClass demoEnv ''/src/arrow.js'' (VString ''app.Arrow'') (Some demoArrowConstruct) =
     Inr ((emptyClass ''/src/arrow.js'' ''app.Arrow'' 1)
       \<lparr>c_bodyT := demoArrowConstruct,
        c_methods :=
          [\<lparr>t_name = VString ''[constructor]'', t_t = demoArrow,
            t_signature = Some ''(a)''\<rparr>]\<rparr>)"
  by (simp add: parseClass_def parseSection_def paramSignature_def emptyClass_def demoEnv_def
      demoArrow_def demoArrowMembers_def demoArrowConstruct_def)

section \<open>The records of the tag file\<close>









lemmas emitter_defs = genCtags_def classLines_def memberLine_def memberFields_def access_def
  classFields_def extendFields_def collectMembers_def sortMembers_def mkEntry_def
  lineField_def tagLine_def startsWith_def showNat.simps

lemma checkFile_mix:
  "checkFile demoEnv ''/src/mix.js'' newSrcMgr = (Inr RetUndefined, demoStateMix)"
  by (simp add: demo_defs registry_defs paramSignature_def demoStateMix_def demoMixClass_def
      demoMixBody_def)



lemma classLines_returns:
  "(\<exists>ls. classLines cls = Inr ls) \<longleftrightarrow>
   (\<forall>en\<in>set (collectMembers cls). \<exists>s. e_name en = VString s)"
proof -
  have m: "(\<exists>ls. memberLines cls ens = Inr ls) \<longleftrightarrow> (\<forall>en\<in>set ens. \<exists>s. e_name en = VString s)"
    for ens
    by (induction ens)
      (auto simp: memberLine_def access_def split: sum.splits jsval.splits)
  have "(\<exists>ls. classLines cls = Inr ls) \<longleftrightarrow>
        (\<exists>ls. memberLines cls (sortMembers (collectMembers cls)) = Inr ls)"
    unfolding classLines_def by (auto split: sum.splits)
  with m [of "sortMembers (collectMembers cls)"] show ?thesis
    by (simp add: sortMembers_def)
qed










lemma allLines_returns:
  "(\<exists>ls. allLines cs = Inr ls) \<longleftrightarrow> (\<forall>cls\<in>set cs. \<exists>l. classLines cls = Inr l)"
  by (induction cs) (auto split: sum.splits)

text \<open>The emitter returns a text exactly when the name of every member of every class of
  the table is a string; otherwise the call of \<open>startsWith\<close> throws.\<close>

lemma genCtags_returns:
  "(\<exists>out. genCtags m = Inr out) \<longleftrightarrow>
   (\<forall>cls\<in>set (map snd (classes m)). \<forall>en\<in>set (collectMembers cls). \<exists>s. e_name en = VString s)"
proof -
  have "(\<exists>out. genCtags m = Inr out) \<longleftrightarrow> (\<exists>ls. allLines (map snd (classes m)) = Inr ls)"
    unfolding genCtags_def by (auto split: sum.splits)
  then show ?thesis by (simp only: allLines_returns classLines_returns)
qed








text \<open>The tag text of \<open>foo.js\<close>: the record of the class, of its superclass, of the method
  \<open>bar\<close> with signature \<open>()\<close> and of the property \<open>baz\<close> with signature \<open>(=null)\<close>.\<close>

lemma foo_end_to_end:
  "genCtags (snd (checkFile demoEnv ''/src/foo.js'' newSrcMgr)) =
     Inr (header @ concat
       (map tagLine
         [[''app.Foo'', ''/src/foo.js'', [CHR ''1'', CHR '';'', CHR 0x22], ''c'',
           ''line:1'', ''type:class''],
          [''qx.core.Object'', ''/src/foo.js'', [CHR ''2'', CHR '';'', CHR 0x22], ''x'',
           ''line:2'', ''ctype:app.Foo''],
          [''bar'', ''/src/foo.js'', [CHR ''4'', CHR '';'', CHR 0x22], ''m'',
           ''line:4'', ''ctype:app.Foo'', ''access:public'', ''signature:()''],
          [''baz'', ''/src/foo.js'', [CHR ''5'', CHR '';'', CHR 0x22], ''p'',
           ''line:5'', ''ctype:app.Foo'', ''access:public'', ''signature:(=null)'']]))"
  by (simp add: demo_defs registry_defs emitter_defs paramSignature_def refTag_def)

section \<open>Removing a directory\<close>

lemma checkFile_gone:
  assumes "resolve e s = s" and "readFileSync e s = Inl ''ENOENT''"
  shows "checkFile e s m = (Inr RetFalse, snd (removeSrc s m))"
  using assms unfolding checkFile_def by (simp add: Let_def)

lemma checkFiles_gone:
  assumes "\<forall>s\<in>set ps. resolve e s = s \<and> readFileSync e s = Inl ''ENOENT''"
  shows "checkFiles e ps m = (None, fold (\<lambda>s m. snd (checkFile e s m)) ps m)"
    and "fold (\<lambda>s m. snd (checkFile e s m)) ps m = fold (\<lambda>s m. snd (removeSrc s m)) ps m"
  using assms by (induction ps arbitrary: m) (simp_all add: checkFile_gone)

lemma fold_removeSrc_srcs:
  "map_of (srcs (fold (\<lambda>s m. snd (removeSrc s m)) ps m)) q =
     (if q \<in> set ps then None else map_of (srcs m) q)"
  by (induction ps arbitrary: m) (auto simp: removeSrc_srcs)

lemma removeSrc_classes_consistent:
  assumes "consistent m"
  shows "map_of (classes (snd (removeSrc p m))) n =
     (case map_of (classes m) n of
        None \<Rightarrow> None
      | Some c \<Rightarrow> if c_srcPath c = p then None else Some c)"
proof (cases "map_of (srcs m) p")
  case None
  with consistent_tracked [OF assms, of n] show ?thesis
    by (auto simp: removeSrc_classes split: option.splits)
next
  case (Some si)
  with consistent_owned [OF assms Some, of n] show ?thesis
    by (auto simp: removeSrc_classes split: option.splits)
qed

lemma fold_removeSrc_classes:
  assumes "consistent m"
  shows "map_of (classes (fold (\<lambda>s m. snd (removeSrc s m)) ps m)) n =
     (case map_of (classes m) n of
        None \<Rightarrow> None
      | Some c \<Rightarrow> if c_srcPath c \<in> set ps then None else Some c)"
  using assms
proof (induction ps arbitrary: m)
  case Nil
  then show ?case by (simp split: option.splits)
next
  case (Cons p ps)
  from Cons.IH [OF removeSrc_consistent(1) [OF Cons.prems, of p]]
    removeSrc_classes_consistent [OF Cons.prems, of p n]
  show ?case by (auto split: option.splits)
qed

text \<open>
  C9. For a path that is no known directory, the removal procedure returns \<open>false\<close> and
  changes nothing. For a known directory, when every tracked file whose path starts with
  it is canonical and no longer there, the procedure returns \<open>true\<close>; it drops the known
  directories whose path starts with the path; it has called \<open>checkFile\<close> on each of these
  files, which leaves them untracked and their classes gone while the other files and
  classes stay; and it emits one \<open>rm\<close> event that carries the path.
\<close>

theorem rm_vanished_path:
  assumes "reachable (srcm d)"
  shows "(path \<notin> set (dirs d) \<longrightarrow> rm e path d = (Inr False, d)) \<and>
         (path \<in> set (dirs d) \<longrightarrow>
          (\<forall>s\<in>set (map fst (srcs (srcm d))).
             startsWith s path \<longrightarrow> resolve e s = s \<and> readFileSync e s = Inl ''ENOENT'') \<longrightarrow>
          (\<exists>d'. rm e path d = (Inr True, d') \<and>
             dirs d' = filter (\<lambda>s. \<not> startsWith s path) (dirs d) \<and>
             emitted d' = emitted d @ [(''rm'', path)] \<and>
             srcm d' =
               fold (\<lambda>s m. snd (checkFile e s m))
                 (filter (\<lambda>s. startsWith s path) (map fst (srcs (srcm d)))) (srcm d) \<and>
             (\<forall>s. map_of (srcs (srcm d')) s =
                (if startsWith s path then None else map_of (srcs (srcm d)) s)) \<and>
             (\<forall>n. map_of (classes (srcm d')) n =
                (case map_of (classes (srcm d)) n of
                   None \<Rightarrow> None
                 | Some c \<Rightarrow> if startsWith (c_srcPath c) path then None else Some c))))"
proof (intro conjI impI)
  assume "path \<notin> set (dirs d)"
  then show "rm e path d = (Inr False, d)" unfolding rm_def by simp
next
  let ?ps = "filter (\<lambda>s. startsWith s path) (map fst (srcs (srcm d)))"
  let ?m = "fold (\<lambda>s m. snd (checkFile e s m)) ?ps (srcm d)"
  let ?d = "\<lparr>dirs = filter (\<lambda>s. \<not> startsWith s path) (dirs d), srcm = ?m,
             emitted = emitted d @ [(''rm'', path)]\<rparr>"
  assume known: "path \<in> set (dirs d)"
    and gone: "\<forall>s\<in>set (map fst (srcs (srcm d))).
      startsWith s path \<longrightarrow> resolve e s = s \<and> readFileSync e s = Inl ''ENOENT''"
  note c = reachable_consistent [OF assms]
  from gone have g: "\<forall>s\<in>set ?ps. resolve e s = s \<and> readFileSync e s = Inl ''ENOENT''"
    by auto
  note cf = checkFiles_gone [OF g, of "srcm d"]
  from known cf(1) have r: "rm e path d = (Inr True, ?d)"
    unfolding rm_def by (simp add: Let_def)
  have s: "map_of (srcs ?m) s = (if startsWith s path then None else map_of (srcs (srcm d)) s)"
    for s
  proof (cases "s \<in> set ?ps")
    case True
    then show ?thesis by (simp add: cf(2) fold_removeSrc_srcs)
  next
    case False
    then have "startsWith s path \<Longrightarrow> map_of (srcs (srcm d)) s = None"
      by (auto simp: map_of_eq_None_iff)
    with False show ?thesis by (simp add: cf(2) fold_removeSrc_srcs)
  qed
  have k: "map_of (classes ?m) n =
      (case map_of (classes (srcm d)) n of
         None \<Rightarrow> None
       | Some c \<Rightarrow> if startsWith (c_srcPath c) path then None else Some c)" for n
  proof (cases "map_of (classes (srcm d)) n")
    case None
    then show ?thesis by (simp add: cf(2) fold_removeSrc_classes [OF c])
  next
    case (Some cl)
    from consistent_tracked [OF c Some] have "c_srcPath cl \<in> fst ` set (srcs (srcm d))"
      by (simp add: map_of_eq_None_iff)
    then have "c_srcPath cl \<in> set ?ps \<longleftrightarrow> startsWith (c_srcPath cl) path" by auto
    with Some show ?thesis by (simp add: cf(2) fold_removeSrc_classes [OF c])
  qed
  from r s k show "\<exists>d'. rm e path d = (Inr True, d') \<and>
             dirs d' = filter (\<lambda>s. \<not> startsWith s path) (dirs d) \<and>
             emitted d' = emitted d @ [(''rm'', path)] \<and>
             srcm d' = ?m \<and>
             (\<forall>s. map_of (srcs (srcm d')) s =
                (if startsWith s path then None else map_of (srcs (srcm d)) s)) \<and>
             (\<forall>n. map_of (classes (srcm d')) n =
                (case map_of (classes (srcm d)) n of
                   None \<Rightarrow> None
                 | Some c \<Rightarrow> if startsWith (c_srcPath c) path then None else Some c))"
    by (intro exI [of _ ?d]) simp
qed

theorem rm_vanished_path_witness:
  "reachable demoStateA \<and>
   rm demoEnv ''/other'' \<lparr>dirs = [''/src'', ''/lib''], srcm = demoStateA, emitted = []\<rparr> =
     (Inr False, \<lparr>dirs = [''/src'', ''/lib''], srcm = demoStateA, emitted = []\<rparr>) \<and>
   rm (demoEnv\<lparr>readFileSync := (\<lambda>p. Inl ''ENOENT'')\<rparr>) ''/src''
      \<lparr>dirs = [''/src'', ''/lib''], srcm = demoStateA, emitted = []\<rparr> =
     (Inr True, \<lparr>dirs = [''/lib''], srcm = newSrcMgr, emitted = [(''rm'', ''/src'')]\<rparr>)"
proof -
  let ?d = "\<lparr>dirs = [''/src'', ''/lib''], srcm = demoStateA, emitted = []\<rparr>"
  let ?gone = "demoEnv\<lparr>readFileSync := (\<lambda>p. Inl ''ENOENT'')\<rparr>"
  have r: "reachable (srcm ?d)" using reachable_demoStateA by simp
  from rm_vanished_path [OF r, of "''/other''" demoEnv]
  have a: "rm demoEnv ''/other'' ?d = (Inr False, ?d)" by simp
  have g: "\<forall>s\<in>set (map fst (srcs (srcm ?d))).
      startsWith s ''/src'' \<longrightarrow> resolve ?gone s = s \<and> readFileSync ?gone s = Inl ''ENOENT''"
    by (simp add: demoStateA_def demoEnv_def startsWith_def)
  have m: "fold (\<lambda>s m. snd (checkFile ?gone s m))
      (filter (\<lambda>s. startsWith s ''/src'') (map fst (srcs (srcm ?d)))) (srcm ?d) = newSrcMgr"
    by (simp add: demoStateA_def demoEnv_def startsWith_def checkFile_def removeSrc_def
        newSrcMgr_def)
  from rm_vanished_path [OF r, of "''/src''" ?gone] g obtain d' where
    "rm ?gone ''/src'' ?d = (Inr True, d')"
    "dirs d' = filter (\<lambda>s. \<not> startsWith s ''/src'') (dirs ?d)"
    "emitted d' = emitted ?d @ [(''rm'', ''/src'')]"
    "srcm d' = fold (\<lambda>s m. snd (checkFile ?gone s m))
      (filter (\<lambda>s. startsWith s ''/src'') (map fst (srcs (srcm ?d)))) (srcm ?d)"
    by auto
  with m have "rm ?gone ''/src'' ?d =
      (Inr True, \<lparr>dirs = [''/lib''], srcm = newSrcMgr, emitted = [(''rm'', ''/src'')]\<rparr>)"
    by (cases d') (simp add: startsWith_def)
  with a reachable_demoStateA show ?thesis by simp
qed

end
